theory Spec2Isabelle
  imports Main "HOL-Library.Multiset"
begin

section \<open>JavaScript strings\<close>

text \<open>
  Strings are lists of characters. The handlers only use \<open>startsWith\<close>,
  \<open>endsWith\<close>, \<open>includes\<close>, \<open>toLowerCase\<close> and two regular expressions;
  each is written out below for ASCII text.
\<close>

definition startsWith :: "string \<Rightarrow> string \<Rightarrow> bool" where
  "startsWith s t \<longleftrightarrow> take (length t) s = t"

definition endsWith :: "string \<Rightarrow> string \<Rightarrow> bool" where
  "endsWith s t \<longleftrightarrow> length t \<le> length s \<and> drop (length s - length t) s = t"

fun str_includes :: "string \<Rightarrow> string \<Rightarrow> bool" where
  "str_includes [] t = (t = [])"
| "str_includes (c # cs) t = (startsWith (c # cs) t \<or> str_includes cs t)"

definition lower_char :: "char \<Rightarrow> char" where
  "lower_char c =
     (case map_of (zip ''ABCDEFGHIJKLMNOPQRSTUVWXYZ'' ''abcdefghijklmnopqrstuvwxyz'') c of
        Some l \<Rightarrow> l
      | None \<Rightarrow> c)"

definition toLowerCase :: "string \<Rightarrow> string" where
  "toLowerCase s = map lower_char s"

fun join_with :: "string \<Rightarrow> string list \<Rightarrow> string" where
  "join_with sep [] = []"
| "join_with sep [s] = s"
| "join_with sep (s # t # ts) = s @ sep @ join_with sep (t # ts)"

text \<open>A number inside a template literal is printed in decimal.\<close>

fun show_nat :: "nat \<Rightarrow> string" where
  "show_nat n =
     (if n < 10 then [''0123456789'' ! n]
      else show_nat (n div 10) @ [''0123456789'' ! (n mod 10)])"

declare show_nat.simps [simp del]

section \<open>Node's \<open>path\<close> module (POSIX)\<close>

fun split_on :: "char \<Rightarrow> string \<Rightarrow> string list" where
  "split_on c [] = [[]]"
| "split_on c (x # xs) =
     (if x = c then [] # split_on c xs
      else (case split_on c xs of [] \<Rightarrow> [[x]] | s # ss \<Rightarrow> (x # s) # ss))"

text \<open>
  \<open>resolve_segments\<close> is the segment walk of \<open>path.normalize\<close>: empty and \<open>.\<close>
  segments are dropped, \<open>..\<close> removes the segment before it, and at the root of an
  absolute path \<open>..\<close> is ignored. The accumulator holds the kept segments, last first.
\<close>

fun resolve_segments :: "bool \<Rightarrow> string list \<Rightarrow> string list \<Rightarrow> string list" where
  "resolve_segments isAbs acc [] = rev acc"
| "resolve_segments isAbs acc (s # ss) =
     (if s = [] \<or> s = ''.'' then resolve_segments isAbs acc ss
      else if s = ''..'' then
        (case acc of
           [] \<Rightarrow> resolve_segments isAbs (if isAbs then [] else [''..'']) ss
         | a # as \<Rightarrow>
             if a = ''..'' then resolve_segments isAbs (''..'' # acc) ss
             else resolve_segments isAbs as ss)
      else resolve_segments isAbs (s # acc) ss)"

definition path_normalize :: "string \<Rightarrow> string" where
  "path_normalize p =
     (if p = [] then ''.''
      else
        let isAbs = (hd p = CHR ''/'');
            trailing = (last p = CHR ''/'');
            body = join_with ''/'' (resolve_segments isAbs [] (split_on CHR ''/'' p));
            body1 = (if body = [] \<and> \<not> isAbs then ''.'' else body);
            body2 = (if body1 \<noteq> [] \<and> trailing then body1 @ ''/'' else body1)
        in if isAbs then CHR ''/'' # body2 else body2)"

definition path_join :: "string list \<Rightarrow> string" where
  "path_join parts =
     (let joined = join_with ''/'' (filter (\<lambda>s. s \<noteq> []) parts)
      in if joined = [] then ''.'' else path_normalize joined)"

definition last_segment :: "string \<Rightarrow> string" where
  "last_segment p =
     rev (takeWhile (\<lambda>c. c \<noteq> CHR ''/'') (dropWhile (\<lambda>c. c = CHR ''/'') (rev p)))"

definition path_extname :: "string \<Rightarrow> string" where
  "path_extname p =
     (let b = last_segment p;
          e = takeWhile (\<lambda>c. c \<noteq> CHR ''.'') (rev b)
      in if CHR ''.'' \<notin> set b then []
         else if length e + 1 = length b then []
         else if b = ''..'' then []
         else CHR ''.'' # rev e)"

definition path_basename :: "string \<Rightarrow> string \<Rightarrow> string" where
  "path_basename p ext =
     (let b = last_segment p
      in if ext \<noteq> [] \<and> ext = p then []
         else if ext \<noteq> [] \<and> endsWith b ext \<and> b \<noteq> ext then take (length b - length ext) b
         else b)"

section \<open>Records, request bodies and the file system\<close>

text \<open>
  Modelled from the spec: the record types (\<open>Member\<close>, \<open>MemberClass\<close>, \<open>Program\<close>,
  \<open>News\<close>, \<open>HeroImage\<close>) are imported from a shared schema module that is not part of
  the sources at hand. The comparator of the save endpoint reads three attributes of a record,
  \<open>displayOrder\<close>, \<open>name\<close> and \<open>title\<close>; each may be absent (\<open>None\<close> is JavaScript's
  \<open>undefined\<close>), \<open>displayOrder\<close> is an integer and the two keys are strings. Every other
  attribute of a record is carried along in \<open>others\<close>. The elements of an array content
  are such records.
\<close>

record rec =
  displayOrder :: "int option"
  name :: "string option"
  title :: "string option"
  others :: "(string \<times> string) list"

datatype jsval =
    JNull
  | JBool bool
  | JNum int
  | JStr string
  | JArr "jsval list"
  | JObj "(string \<times> jsval) list"

text \<open>
  The \<open>content\<close> of a save request is any JSON value. \<open>Array.isArray\<close> holds of the
  first constructor only.
\<close>

datatype content =
    Array "rec list"
  | Object "(string \<times> jsval) list"
  | String string
  | Number int
  | Boolean bool
  | Null

fun isArray :: "content \<Rightarrow> bool" where
  "isArray (Array rs) = True"
| "isArray c = False"

text \<open>
  A file holds either the text \<open>JSON.stringify(v, null, 2)\<close> of a value \<open>v\<close>, represented
  by \<open>v\<close> itself, or the bytes of an upload. The file system maps an absolute, normalised
  path to the regular file stored there; directories are not tracked.
\<close>

datatype file_data = JsonText content | Bytes string

type_synonym fs = "string \<Rightarrow> file_data option"

datatype exn = SyntaxError | InvalidFileType | LimitFileSize

datatype reply =
    Ok
  | OkCount nat
  | OkPath string
  | Error string
  | Caught exn
  | Unhandled exn

type_synonym response = "nat \<times> reply"

text \<open>
  The body of a save request is \<open>{file, content}\<close>; the field \<open>file\<close> is called
  \<open>file_name\<close> here. A field is \<open>None\<close> when the body does not have it.
\<close>

record save_body =
  file_name :: "string option"
  content :: "content option"

record upload_file =
  originalname :: string
  mimetype :: string
  bytes :: string

record upload_request =
  category :: "string option"
  upload :: "upload_file option"

text \<open>
  \<open>cwd\<close> is \<open>process.cwd()\<close>, an absolute path. \<open>path.resolve\<close> of an absolute path
  and relative segments is their \<open>path.join\<close>.
\<close>

definition DATA_DIR :: "string \<Rightarrow> string" where
  "DATA_DIR cwd = path_join [cwd, ''client'', ''public'', ''data'']"

definition UPLOAD_DIR :: "string \<Rightarrow> string" where
  "UPLOAD_DIR cwd = path_join [cwd, ''client'', ''public'', ''uploads'']"

section \<open>The token gate\<close>

text \<open>
  \<open>requireDevToken\<close> answers 401 or calls \<open>next()\<close>; \<open>None\<close> is the call of \<open>next()\<close>.
  \<open>TOKEN\<close> is the environment variable, \<open>hdr\<close> the request's \<open>x-admin-token\<close> header.
  \<open>!TOKEN\<close> holds of \<open>undefined\<close> and of the empty string.
\<close>

definition requireDevToken :: "string option \<Rightarrow> string option \<Rightarrow> response option" where
  "requireDevToken TOKEN hdr =
     (if TOKEN = None \<or> TOKEN = Some [] \<or> hdr \<noteq> TOKEN
      then Some (401, Error ''unauthorized'')
      else None)"

section \<open>The ordering policy of the save endpoint\<close>

definition effective_order :: "rec \<Rightarrow> int" where
  "effective_order r = (case displayOrder r of None \<Rightarrow> 0 | Some n \<Rightarrow> n)"

definition secondary_key :: "rec \<Rightarrow> string" where
  "secondary_key r =
     (let t = (case title r of None \<Rightarrow> [] | Some t \<Rightarrow> t)
      in case name r of None \<Rightarrow> t | Some n \<Rightarrow> if n = [] then t else n)"

text \<open>
  The comparator handed to \<open>Array.prototype.sort\<close>. \<open>localeCompare\<close> is the runtime's
  collation, a parameter of the model.
\<close>

definition comparator :: "(string \<Rightarrow> string \<Rightarrow> int) \<Rightarrow> rec \<Rightarrow> rec \<Rightarrow> int" where
  "comparator localeCompare a b =
     (if displayOrder a \<noteq> displayOrder b then effective_order a - effective_order b
      else localeCompare (secondary_key a) (secondary_key b))"

section \<open>The engine's \<open>Array.prototype.sort\<close>\<close>

text \<open>
  The server runs on V8, whose sort first looks for the run the array starts with: the
  comparator is called with each element and the one before it; the run is descending when
  the second element compares below the first, and a descending run is reversed.
  \<open>run_tail\<close> counts the elements after the second that continue the run.
\<close>

fun run_tail :: "bool \<Rightarrow> (rec \<Rightarrow> rec \<Rightarrow> int) \<Rightarrow> rec \<Rightarrow> rec list \<Rightarrow> nat" where
  "run_tail isDescending cmp previousElement [] = 0"
| "run_tail isDescending cmp previousElement (currentElement # rest) =
     (let order = cmp currentElement previousElement
      in if (if isDescending then 0 \<le> order else order < 0) then 0
         else Suc (run_tail isDescending cmp currentElement rest))"

definition count_run :: "(rec \<Rightarrow> rec \<Rightarrow> int) \<Rightarrow> rec list \<Rightarrow> nat \<times> bool" where
  "count_run cmp xs =
     (case xs of
        elementHigh # elementLow # rest \<Rightarrow>
          let isDescending = (cmp elementLow elementHigh < 0)
          in (2 + run_tail isDescending cmp elementLow rest, isDescending)
      | _ \<Rightarrow> (length xs, False))"

text \<open>
  An array of fewer than 64 elements is then completed by binary insertion: each further
  element, the pivot, is placed at the index a binary search finds in the part in front
  of it, the pivot being the comparator's first argument.
\<close>

function binary_search :: "(rec \<Rightarrow> rec \<Rightarrow> int) \<Rightarrow> rec \<Rightarrow> rec list \<Rightarrow> nat \<Rightarrow> nat \<Rightarrow> nat" where
  "binary_search cmp pivot arr left right =
     (if left < right then
        let mid = left + (right - left) div 2
        in if cmp pivot (arr ! mid) < 0 then binary_search cmp pivot arr left mid
           else binary_search cmp pivot arr (mid + 1) right
      else left)"
  by pat_completeness auto
termination
  by (relation "measure (\<lambda>(cmp, pivot, arr, left, right). right - left)") auto

declare binary_search.simps [simp del]

fun binary_insertion_sort :: "(rec \<Rightarrow> rec \<Rightarrow> int) \<Rightarrow> rec list \<Rightarrow> rec list \<Rightarrow> rec list" where
  "binary_insertion_sort cmp arr [] = arr"
| "binary_insertion_sort cmp arr (pivot # rest) =
     (let left = binary_search cmp pivot arr 0 (length arr)
      in binary_insertion_sort cmp (take left arr @ pivot # drop left arr) rest)"

text \<open>
  An array of 64 or more elements that is not one run is cut into runs that are merged.
  That phase is not modelled: it is the parameter \<open>merge_phase\<close>, of a type whose members
  return an arrangement of the array they are given, as every sort in place does.
\<close>

typedef sorter =
  "{s :: (rec \<Rightarrow> rec \<Rightarrow> int) \<Rightarrow> rec list \<Rightarrow> rec list. \<forall>cmp xs. mset (s cmp xs) = mset xs}"
  by (rule exI [of _ "\<lambda>cmp xs. xs"]) simp

definition array_sort :: "sorter \<Rightarrow> (rec \<Rightarrow> rec \<Rightarrow> int) \<Rightarrow> rec list \<Rightarrow> rec list" where
  "array_sort merge_phase cmp xs =
     (if length xs < 2 then xs
      else
        let (runLength, isDescending) = count_run cmp xs;
            run = (if isDescending then rev (take runLength xs) else take runLength xs)
        in if runLength = length xs then run
           else if length xs < 64 then binary_insertion_sort cmp run (drop runLength xs)
           else Rep_sorter merge_phase cmp xs)"

section \<open>The save endpoint\<close>

definition invalid_file :: "string option \<Rightarrow> bool" where
  "invalid_file f =
     (case f of
        None \<Rightarrow> True
      | Some n \<Rightarrow> \<not> endsWith n ''.json'' \<or> str_includes n ''..'' \<or> str_includes n ''/'')"

definition programs_limit_message :: string where
  "programs_limit_message =
     ''Programs are limited to a maximum of 4 items. Please remove some programs before adding new ones.''"

definition count_of :: "content \<Rightarrow> nat" where
  "count_of c = (case c of Array rs \<Rightarrow> length rs | _ \<Rightarrow> 1)"

definition save_json ::
  "(string \<Rightarrow> string \<Rightarrow> int) \<Rightarrow> sorter \<Rightarrow> string \<Rightarrow> save_body \<Rightarrow> fs \<Rightarrow> response \<times> fs" where
  "save_json localeCompare merge_phase cwd body store =
     (case file_name body of
        None \<Rightarrow> ((400, Error ''invalid file''), store)
      | Some f \<Rightarrow>
          if invalid_file (Some f) then ((400, Error ''invalid file''), store)
          else
            (case content body of
               None \<Rightarrow> ((500, Caught SyntaxError), store)
             | Some c \<Rightarrow>
                 let dataToSave =
                       (case c of
                          Array rs \<Rightarrow> Array (array_sort merge_phase (comparator localeCompare) rs)
                        | _ \<Rightarrow> c)
                 in if isArray c \<and> f = ''programs.json'' \<and> 4 < count_of dataToSave
                    then ((400, Error programs_limit_message), store)
                    else ((200, OkCount (count_of dataToSave)),
                          store(path_join [DATA_DIR cwd, f] \<mapsto> JsonText dataToSave))))"

definition post_save_json ::
  "(string \<Rightarrow> string \<Rightarrow> int) \<Rightarrow> sorter \<Rightarrow> string option \<Rightarrow> string \<Rightarrow> string option \<Rightarrow> save_body \<Rightarrow> fs
     \<Rightarrow> response \<times> fs" where
  "post_save_json localeCompare merge_phase TOKEN cwd hdr body store =
     (case requireDevToken TOKEN hdr of
        Some r \<Rightarrow> (r, store)
      | None \<Rightarrow> save_json localeCompare merge_phase cwd body store)"

text \<open>
  The body's \<open>content\<close> is \<open>None\<close> when the request has no such field:
  \<open>JSON.stringify(undefined)\<close> is \<open>undefined\<close>, which \<open>JSON.parse\<close> refuses, and the
  handler's \<open>catch\<close> answers 500. Every other content is a parsed JSON value and passes
  that check.

  The stand-alone dev server has the same gate and the same file-name guard; it writes the
  content as it is, under \<open>client/src/data\<close>, and answers \<open>{ok: true}\<close>.
\<close>

definition standalone_save_json :: "string \<Rightarrow> save_body \<Rightarrow> fs \<Rightarrow> response \<times> fs" where
  "standalone_save_json cwd body store =
     (case file_name body of
        None \<Rightarrow> ((400, Error ''invalid file''), store)
      | Some f \<Rightarrow>
          if invalid_file (Some f) then ((400, Error ''invalid file''), store)
          else
            (case content body of
               None \<Rightarrow> ((500, Caught SyntaxError), store)
             | Some c \<Rightarrow>
                 ((200, Ok),
                  store(path_join [path_join [cwd, ''client'', ''src'', ''data''], f]
                          \<mapsto> JsonText c))))"

definition standalone_post_save_json ::
  "string option \<Rightarrow> string \<Rightarrow> string option \<Rightarrow> save_body \<Rightarrow> fs \<Rightarrow> response \<times> fs" where
  "standalone_post_save_json TOKEN cwd hdr body store =
     (case requireDevToken TOKEN hdr of
        Some r \<Rightarrow> (r, store)
      | None \<Rightarrow> standalone_save_json cwd body store)"

section \<open>The upload endpoint\<close>

definition allowedCategories :: "string list" where
  "allowedCategories = [''members'', ''news'', ''hero'', ''programs'', ''misc'']"

definition query_category :: "string option \<Rightarrow> string" where
  "query_category q = (case q of None \<Rightarrow> ''misc'' | Some c \<Rightarrow> if c = [] then ''misc'' else c)"

definition finalCategory :: "string \<Rightarrow> string" where
  "finalCategory c = (if c \<in> set allowedCategories then c else ''misc'')"

definition destination :: "string \<Rightarrow> string option \<Rightarrow> string" where
  "destination cwd q = path_join [UPLOAD_DIR cwd, finalCategory (query_category q)]"

text \<open>The replacement of \<open>/[^a-z0-9]+/g\<close> by a dash: one dash for each maximal run.\<close>

definition slug_char :: "char \<Rightarrow> bool" where
  "slug_char c \<longleftrightarrow> c \<in> set ''abcdefghijklmnopqrstuvwxyz0123456789''"

fun replace_runs :: "bool \<Rightarrow> string \<Rightarrow> string" where
  "replace_runs inRun [] = []"
| "replace_runs inRun (c # cs) =
     (if slug_char c then c # replace_runs False cs
      else if inRun then replace_runs True cs
      else CHR ''-'' # replace_runs True cs)"

definition filename :: "nat \<Rightarrow> upload_file \<Rightarrow> string" where
  "filename now f =
     (let ext = path_extname (originalname f);
          basename = replace_runs False (toLowerCase (path_basename (originalname f) ext))
      in basename @ ''-'' @ show_nat now @ ext)"

text \<open>\<open>allowedTypes.test(s)\<close>: the pattern has no anchors, it looks for an occurrence.\<close>

definition allowedTypes :: "string list" where
  "allowedTypes = [''jpeg'', ''jpg'', ''png'', ''webp'', ''gif'']"

definition allowedTypes_test :: "string \<Rightarrow> bool" where
  "allowedTypes_test s = list_ex (str_includes s) allowedTypes"

definition fileFilter :: "upload_file \<Rightarrow> bool" where
  "fileFilter f =
     (let extname = allowedTypes_test (toLowerCase (path_extname (originalname f)));
          mimetype = allowedTypes_test (mimetype f)
      in mimetype \<and> extname)"

definition fileSize_limit :: nat where
  "fileSize_limit = 10 * 1024 * 1024"

text \<open>
  \<open>now\<close> is the value of \<open>Date.now()\<close> when the file name is chosen. An error of the
  upload middleware (the filter's, or the size limit's) is not caught by the handler.
\<close>

definition upload_single :: "string \<Rightarrow> nat \<Rightarrow> upload_request \<Rightarrow> fs \<Rightarrow> response \<times> fs" where
  "upload_single cwd now req store =
     (case upload req of
        None \<Rightarrow> ((400, Error ''no file''), store)
      | Some f \<Rightarrow>
          if \<not> fileFilter f then ((500, Unhandled InvalidFileType), store)
          else if fileSize_limit < length (bytes f) then ((500, Unhandled LimitFileSize), store)
          else
            let stored = path_join [destination cwd (category req), filename now f];
                publicPath = ''/uploads/'' @ query_category (category req) @ ''/'' @ filename now f
            in ((200, OkPath publicPath), store(stored \<mapsto> Bytes (bytes f))))"

definition post_upload ::
  "string option \<Rightarrow> string \<Rightarrow> nat \<Rightarrow> string option \<Rightarrow> upload_request \<Rightarrow> fs \<Rightarrow> response \<times> fs" where
  "post_upload TOKEN cwd now hdr req store =
     (case requireDevToken TOKEN hdr of
        Some r \<Rightarrow> (r, store)
      | None \<Rightarrow> upload_single cwd now req store)"

section \<open>The delete endpoint\<close>

definition public_file :: "string \<Rightarrow> string \<Rightarrow> string" where
  "public_file cwd filePath = path_join [cwd, ''client'', ''public'', filePath]"

definition delete_upload :: "string \<Rightarrow> string option \<Rightarrow> fs \<Rightarrow> response \<times> fs" where
  "delete_upload cwd filePath store =
     (case filePath of
        None \<Rightarrow> ((400, Error ''invalid file path''), store)
      | Some p \<Rightarrow>
          if p = [] \<or> \<not> startsWith p ''/uploads/'' then ((400, Error ''invalid file path''), store)
          else
            let target = public_file cwd p
            in (case store target of
                  None \<Rightarrow> ((404, Error ''file not found''), store)
                | Some d \<Rightarrow> ((200, Ok), store(target := None))))"

definition delete_dev_upload ::
  "string option \<Rightarrow> string \<Rightarrow> string option \<Rightarrow> string option \<Rightarrow> fs \<Rightarrow> response \<times> fs" where
  "delete_dev_upload TOKEN cwd hdr filePath store =
     (case requireDevToken TOKEN hdr of
        Some r \<Rightarrow> (r, store)
      | None \<Rightarrow> delete_upload cwd filePath store)"

section \<open>The client\<close>

record client_env =
  DEV :: bool
  DEV_TOKEN :: "string option"

datatype client_error = DevOnly | Failed response | LoadFailed string | NotJson

definition saveToJson ::
  "(string \<Rightarrow> string \<Rightarrow> int) \<Rightarrow> sorter \<Rightarrow> string option \<Rightarrow> string \<Rightarrow> client_env \<Rightarrow> string \<Rightarrow> rec list \<Rightarrow> fs
     \<Rightarrow> (client_error + reply) \<times> fs" where
  "saveToJson localeCompare merge_phase TOKEN cwd env fname data store =
     (if \<not> DEV env then (Inl DevOnly, store)
      else
        let hdr = (case DEV_TOKEN env of None \<Rightarrow> [] | Some t \<Rightarrow> t);
            (resp, store') =
              post_save_json localeCompare merge_phase TOKEN cwd (Some hdr)
                \<lparr>file_name = Some fname, content = Some (Array data)\<rparr> store
        in if 200 \<le> fst resp \<and> fst resp \<le> 299 then (Inr (snd resp), store')
           else (Inl (Failed resp), store'))"

text \<open>
  \<open>loadJsonData\<close> fetches the URL \<open>/data/<filename>\<close>, the name put in as it is. What
  the browser makes of the URL and what the static file server answers are not part of the
  sources at hand: \<open>fetch url store\<close>, a parameter, is the body of the answer to \<open>GET url\<close>
  when the answer is ok, and \<open>None\<close> when it is not.
\<close>

definition loadJsonData ::
  "(string \<Rightarrow> fs \<Rightarrow> file_data option) \<Rightarrow> string \<Rightarrow> fs \<Rightarrow> client_error + content" where
  "loadJsonData fetch fname store =
     (case fetch (''/data/'' @ fname) store of
        None \<Rightarrow> Inl (LoadFailed fname)
      | Some (JsonText c) \<Rightarrow> Inr c
      | Some (Bytes b) \<Rightarrow> Inl NotJson)"

text \<open>
  Modelled from the spec: the static file server is not part of the sources at hand. A
  collection is read with \<open>GET /data/<name>\<close>, served as a plain static file from the data
  directory the save endpoint writes to. \<open>serves_data_dir fetch cwd fname\<close> says that this
  is what \<open>fetch\<close> does for the name \<open>fname\<close>.
\<close>

definition serves_data_dir :: "(string \<Rightarrow> fs \<Rightarrow> file_data option) \<Rightarrow> string \<Rightarrow> string \<Rightarrow> bool" where
  "serves_data_dir fetch cwd fname \<longleftrightarrow>
     (\<forall>store. fetch (''/data/'' @ fname) store = store (path_join [DATA_DIR cwd, fname]))"

text \<open>
  A drag-reorder is saved by the \<open>saveOrderMutation\<close> of the panel at hand. In the panels
  of the members, the member classes, the programs and the hero images, every record of
  the new sequence gets its index as \<open>displayOrder\<close>, and the sequence is sent to the save
  endpoint under the panel's file name.
\<close>

datatype panel = Members | MemberClasses | Programs | HeroImages

fun panel_file :: "panel \<Rightarrow> string" where
  "panel_file Members = ''members.json''"
| "panel_file MemberClasses = ''memberClasses.json''"
| "panel_file Programs = ''programs.json''"
| "panel_file HeroImages = ''heroImages.json''"

definition reindex :: "rec list \<Rightarrow> rec list" where
  "reindex ordered = map (\<lambda>(index, r). r\<lparr>displayOrder := Some (int index)\<rparr>) (enumerate 0 ordered)"

definition saveOrderMutation ::
  "(string \<Rightarrow> string \<Rightarrow> int) \<Rightarrow> sorter \<Rightarrow> string option \<Rightarrow> string \<Rightarrow> client_env \<Rightarrow> panel \<Rightarrow> rec list \<Rightarrow> fs
     \<Rightarrow> (client_error + rec list) \<times> fs" where
  "saveOrderMutation localeCompare merge_phase TOKEN cwd env p ordered store =
     (let updated = reindex ordered
      in case saveToJson localeCompare merge_phase TOKEN cwd env (panel_file p) updated store of
           (Inl e, store') \<Rightarrow> (Inl e, store')
         | (Inr r, store') \<Rightarrow> (Inr updated, store'))"

text \<open>The news panel sends the new sequence as it is.\<close>

definition saveNewsOrderMutation ::
  "(string \<Rightarrow> string \<Rightarrow> int) \<Rightarrow> sorter \<Rightarrow> string option \<Rightarrow> string \<Rightarrow> client_env \<Rightarrow> rec list \<Rightarrow> fs
     \<Rightarrow> (client_error + rec list) \<times> fs" where
  "saveNewsOrderMutation localeCompare merge_phase TOKEN cwd env orderedNews store =
     (case saveToJson localeCompare merge_phase TOKEN cwd env ''news.json'' orderedNews store of
        (Inl e, store') \<Rightarrow> (Inl e, store')
      | (Inr r, store') \<Rightarrow> (Inr orderedNews, store'))"

section \<open>A collation, a merge phase and a static server for closed examples\<close>

text \<open>
  \<open>localeCompare\<close> is a parameter of the model. Closed examples instantiate it with the
  comparison of strings character by character, by character code, which orders words of
  one letter case as every locale's alphabet does.
\<close>

fun lex_compare :: "nat list \<Rightarrow> nat list \<Rightarrow> int" where
  "lex_compare [] [] = 0"
| "lex_compare [] (y # ys) = - 1"
| "lex_compare (x # xs) [] = 1"
| "lex_compare (x # xs) (y # ys) =
     (if x < y then - 1 else if y < x then 1 else lex_compare xs ys)"

definition ordinal_compare :: "string \<Rightarrow> string \<Rightarrow> int" where
  "ordinal_compare a b = lex_compare (map of_char a) (map of_char b)"

text \<open>
  The merge phase of closed examples is the insertion sort that puts each element, from
  the last to the first, in front of the first element it does not exceed. No example
  reaches it: their arrays have fewer than 64 elements.
\<close>

fun insert_by :: "(rec \<Rightarrow> rec \<Rightarrow> int) \<Rightarrow> rec \<Rightarrow> rec list \<Rightarrow> rec list" where
  "insert_by cmp x [] = [x]"
| "insert_by cmp x (y # ys) = (if cmp x y \<le> 0 then x # y # ys else y # insert_by cmp x ys)"

definition insertion_sort :: "(rec \<Rightarrow> rec \<Rightarrow> int) \<Rightarrow> rec list \<Rightarrow> rec list" where
  "insertion_sort cmp xs = foldr (insert_by cmp) xs []"

definition insertion_sorter :: sorter where
  "insertion_sorter = Abs_sorter insertion_sort"

text \<open>
  The static server of closed examples answers for the five collections of the site, each
  from its file in the data directory.
\<close>

definition collections :: "string list" where
  "collections = [''members.json'', ''memberClasses.json'', ''programs.json'', ''news.json'', ''heroImages.json'']"

definition collection_server :: "string \<Rightarrow> string \<Rightarrow> fs \<Rightarrow> file_data option" where
  "collection_server cwd url store =
     (if url \<in> set (map (\<lambda>n. ''/data/'' @ n) collections)
      then store (path_join [DATA_DIR cwd, drop 6 url])
      else None)"

section \<open>The ordering the specification describes\<close>

text \<open>
  \<open>policy_le\<close> follows the words of the specification: ascending \<open>displayOrder\<close> first
  (an absent \<open>displayOrder\<close> counts as 0, as in the comparator), and among records sharing a
  \<open>displayOrder\<close> the collation of the secondary key. A collation is consistent when
  swapping its arguments swaps the sign of its answer and the order it gives is
  transitive. \<open>orders_uniform\<close> holds of a collection in which no record lacks a
  \<open>displayOrder\<close> while another carries the value 0.
\<close>

definition policy_le :: "(string \<Rightarrow> string \<Rightarrow> int) \<Rightarrow> rec \<Rightarrow> rec \<Rightarrow> bool" where
  "policy_le localeCompare a b \<longleftrightarrow>
     effective_order a < effective_order b
     \<or> (displayOrder a = displayOrder b \<and> localeCompare (secondary_key a) (secondary_key b) \<le> 0)"

definition consistent_collation :: "(string \<Rightarrow> string \<Rightarrow> int) \<Rightarrow> bool" where
  "consistent_collation localeCompare \<longleftrightarrow>
     (\<forall>a b. localeCompare a b < 0 \<longleftrightarrow> 0 < localeCompare b a)
     \<and> (\<forall>a b c. localeCompare a b \<le> 0 \<longrightarrow> localeCompare b c \<le> 0 \<longrightarrow> localeCompare a c \<le> 0)"

definition orders_uniform :: "rec list \<Rightarrow> bool" where
  "orders_uniform rs \<longleftrightarrow>
     (\<forall>a \<in> set rs. \<forall>b \<in> set rs. effective_order a = effective_order b \<longrightarrow> displayOrder a = displayOrder b)"

text \<open>
  A comparator is consistent on an array in the same sense. The language requires of the
  engine that it sorts every array on which the comparator is consistent;
  \<open>sorting_merge_phase\<close> says so of the phase that is not modelled.
\<close>

definition consistent_on :: "(rec \<Rightarrow> rec \<Rightarrow> int) \<Rightarrow> rec list \<Rightarrow> bool" where
  "consistent_on cmp xs \<longleftrightarrow>
     (\<forall>a \<in> set xs. \<forall>b \<in> set xs. cmp a b < 0 \<longleftrightarrow> 0 < cmp b a)
     \<and> (\<forall>a \<in> set xs. \<forall>b \<in> set xs. \<forall>c \<in> set xs. cmp a b \<le> 0 \<longrightarrow> cmp b c \<le> 0 \<longrightarrow> cmp a c \<le> 0)"

definition sorting_merge_phase :: "sorter \<Rightarrow> bool" where
  "sorting_merge_phase merge_phase \<longleftrightarrow>
     (\<forall>cmp xs. consistent_on cmp xs \<longrightarrow> sorted_wrt (\<lambda>a b. cmp a b \<le> 0) (Rep_sorter merge_phase cmp xs))"

section \<open>The specification's reading of the upload and delete checks\<close>

text \<open>
  These two predicates follow the words of the specification, to be compared with what the
  handlers test: a file extension within the allowed image set, and a resolved path inside
  the public uploads root.
\<close>

definition extension_in_allowed_set :: "string \<Rightarrow> bool" where
  "extension_in_allowed_set n \<longleftrightarrow>
     toLowerCase (path_extname n) \<in> set (map (\<lambda>t. CHR ''.'' # t) allowedTypes)"

definition inside_uploads_root :: "string \<Rightarrow> string \<Rightarrow> bool" where
  "inside_uploads_root cwd target \<longleftrightarrow> startsWith target (UPLOAD_DIR cwd @ ''/'')"

section \<open>Records for closed examples\<close>

definition member :: "int \<Rightarrow> string \<Rightarrow> rec" where
  "member n nm = \<lparr>displayOrder = Some n, name = Some nm, title = None, others = []\<rparr>"

definition program :: "int \<Rightarrow> string \<Rightarrow> rec" where
  "program n t = \<lparr>displayOrder = Some n, name = None, title = Some t, others = []\<rparr>"

definition unordered_member :: "string \<Rightarrow> rec" where
  "unordered_member nm = \<lparr>displayOrder = None, name = Some nm, title = None, others = []\<rparr>"

definition news :: "string \<Rightarrow> rec" where
  "news t = \<lparr>displayOrder = None, name = None, title = Some t, others = []\<rparr>"

section \<open>Facts about the string functions\<close>

lemma startsWith_iff: "startsWith s t \<longleftrightarrow> (\<exists>b. s = t @ b)"
  unfolding startsWith_def
  by (metis append_eq_conv_conj append_take_drop_id)

lemma endsWith_iff: "endsWith s t \<longleftrightarrow> (\<exists>a. s = a @ t)"
proof
  assume "endsWith s t"
  then have "drop (length s - length t) s = t"
    by (simp add: endsWith_def)
  then have "s = take (length s - length t) s @ t"
    by (metis append_take_drop_id)
  then show "\<exists>a. s = a @ t" ..
next
  assume "\<exists>a. s = a @ t"
  then show "endsWith s t"
    by (auto simp: endsWith_def)
qed

lemma str_includes_iff: "str_includes s t \<longleftrightarrow> (\<exists>a b. s = a @ t @ b)"
proof (induction s)
  case Nil
  then show ?case by auto
next
  case (Cons c cs)
  show ?case
  proof
    assume "str_includes (c # cs) t"
    then consider "startsWith (c # cs) t" | "str_includes cs t"
      by auto
    then show "\<exists>a b. c # cs = a @ t @ b"
    proof cases
      case 1
      then obtain b where "c # cs = t @ b"
        by (auto simp: startsWith_iff)
      then have "c # cs = [] @ t @ b" by simp
      then show ?thesis by blast
    next
      case 2
      then obtain a b where "cs = a @ t @ b"
        using Cons.IH by blast
      then have "c # cs = (c # a) @ t @ b" by simp
      then show ?thesis by blast
    qed
  next
    assume "\<exists>a b. c # cs = a @ t @ b"
    then obtain a b where ab: "c # cs = a @ t @ b" by blast
    show "str_includes (c # cs) t"
    proof (cases a)
      case Nil
      with ab have "startsWith (c # cs) t"
        by (auto simp: startsWith_iff)
      then show ?thesis by simp
    next
      case (Cons a0 as)
      with ab have "cs = as @ t @ b" by simp
      then have "str_includes cs t"
        using Cons.IH by blast
      then show ?thesis by simp
    qed
  qed
qed

lemma invalid_file_iff:
  "invalid_file f \<longleftrightarrow>
     (\<forall>n. f = Some n \<longrightarrow>
        \<not> (\<exists>a. n = a @ ''.json'') \<or> (\<exists>a b. n = a @ ''..'' @ b) \<or> (\<exists>a b. n = a @ ''/'' @ b))"
  by (cases f) (simp_all add: invalid_file_def endsWith_iff str_includes_iff)

section \<open>Facts about the sort\<close>

text \<open>The result is an arrangement of the array, whatever the comparator.\<close>

lemma mset_binary_insertion_sort:
  "mset (binary_insertion_sort cmp arr rest) = mset arr + mset rest"
proof (induction rest arbitrary: arr)
  case Nil
  then show ?case by simp
next
  case (Cons pivot rest)
  have "mset (take n arr @ pivot # drop n arr) = add_mset pivot (mset arr)" for n
    by (metis append_take_drop_id mset.simps(2) mset_append union_mset_add_mset_right)
  with Cons.IH show ?case
    by (simp add: Let_def)
qed

lemma mset_array_sort: "mset (array_sort merge_phase cmp xs) = mset xs"
proof -
  have rep: "mset (Rep_sorter merge_phase cmp xs) = mset xs"
    using Rep_sorter [of merge_phase] by simp
  have split: "mset (take n xs) + mset (drop n xs) = mset xs" for n
    by (metis append_take_drop_id mset_append)
  show ?thesis
    by (simp add: array_sort_def Let_def rep split mset_binary_insertion_sort
        split: prod.splits)
qed

lemma length_array_sort: "length (array_sort merge_phase cmp xs) = length xs"
  using mset_array_sort [of merge_phase cmp xs] by (rule mset_eq_length)

lemma set_array_sort: "set (array_sort merge_phase cmp xs) = set xs"
  using mset_array_sort [of merge_phase cmp xs] by (rule mset_eq_setD)

text \<open>
  An array in which no element compares below the one before it is one ascending run,
  and is left as it is.
\<close>

lemma run_tail_whole:
  "successively (\<lambda>a b. 0 \<le> cmp b a) (previous # rest) \<Longrightarrow> run_tail False cmp previous rest = length rest"
  by (induction rest arbitrary: previous) (simp_all add: Let_def)

lemma array_sort_in_order:
  assumes "successively (\<lambda>a b. 0 \<le> cmp b a) xs"
  shows "array_sort merge_phase cmp xs = xs"
proof (cases xs)
  case Nil
  then show ?thesis by (simp add: array_sort_def)
next
  case (Cons a0 tl)
  show ?thesis
  proof (cases tl)
    case Nil
    with Cons show ?thesis by (simp add: array_sort_def)
  next
    case (Cons a1 rest)
    with \<open>xs = a0 # tl\<close> assms have first: "0 \<le> cmp a1 a0"
      and tail: "successively (\<lambda>a b. 0 \<le> cmp b a) (a1 # rest)"
      by simp_all
    from run_tail_whole [OF tail] have "run_tail False cmp a1 rest = length rest" .
    with first Cons \<open>xs = a0 # tl\<close> show ?thesis
      by (simp add: array_sort_def count_run_def Let_def)
  qed
qed

text \<open>
  Where the comparator is consistent on the array, the run is sorted and binary insertion
  keeps it sorted. \<open>A\<close> is the set of the elements at hand.
\<close>

lemma successively_sorted_wrt:
  assumes step: "\<And>a b. a \<in> A \<Longrightarrow> b \<in> A \<Longrightarrow> S a b \<Longrightarrow> R a b"
    and trans: "\<And>a b c. a \<in> A \<Longrightarrow> b \<in> A \<Longrightarrow> c \<in> A \<Longrightarrow> R a b \<Longrightarrow> R b c \<Longrightarrow> R a c"
  shows "set ys \<subseteq> A \<Longrightarrow> successively S ys \<Longrightarrow> sorted_wrt R ys"
proof (induction ys)
  case Nil
  then show ?case by simp
next
  case (Cons y ys)
  show ?case
  proof (cases ys)
    case Nil
    then show ?thesis by simp
  next
    case (Cons y' ys')
    with Cons.prems have s: "S y y'" and succ: "successively S ys" and sub: "set ys \<subseteq> A"
      and y: "y \<in> A" and y': "y' \<in> A"
      by simp_all
    from step [OF y y' s] have yy': "R y y'" .
    from Cons.IH [OF sub succ] have srt: "sorted_wrt R ys" .
    with Cons have "\<forall>z \<in> set ys'. R y' z" by simp
    with yy' trans y y' sub Cons have "\<forall>z \<in> set ys'. R y z"
      by (metis list.set_intros(2) subsetD)
    with yy' srt Cons show ?thesis by simp
  qed
qed

lemma run_tail_successively:
  "successively (\<lambda>a b. if isDescending then cmp b a < 0 else 0 \<le> cmp b a)
     (previous # take (run_tail isDescending cmp previous rest) rest)"
proof (induction rest arbitrary: previous)
  case Nil
  then show ?case by simp
next
  case (Cons current rest)
  show ?case
    using Cons.IH [of current]
    by (cases isDescending) (auto simp: Let_def)
qed

lemma count_run_sorted:
  assumes anti: "\<And>a b. a \<in> A \<Longrightarrow> b \<in> A \<Longrightarrow> cmp a b < 0 \<longleftrightarrow> 0 < cmp b a"
    and trans: "\<And>a b c. a \<in> A \<Longrightarrow> b \<in> A \<Longrightarrow> c \<in> A \<Longrightarrow> cmp a b \<le> 0 \<Longrightarrow> cmp b c \<le> 0 \<Longrightarrow> cmp a c \<le> 0"
    and sub: "set xs \<subseteq> A"
    and run: "count_run cmp xs = (runLength, isDescending)"
  shows "sorted_wrt (\<lambda>a b. cmp a b \<le> 0)
           (if isDescending then rev (take runLength xs) else take runLength xs)"
proof -
  let ?R = "\<lambda>a b. if isDescending then cmp b a < 0 else 0 \<le> cmp b a"
  have succ: "successively ?R (take runLength xs)"
  proof (cases xs)
    case Nil
    then show ?thesis by simp
  next
    case (Cons a0 tl)
    show ?thesis
    proof (cases tl)
      case Nil
      with Cons run show ?thesis
        by (auto simp: count_run_def)
    next
      case (Cons a1 rest)
      with \<open>xs = a0 # tl\<close> run have d: "isDescending = (cmp a1 a0 < 0)"
        and k: "runLength = 2 + run_tail isDescending cmp a1 rest"
        by (auto simp: count_run_def Let_def)
      have "successively ?R (a1 # take (run_tail isDescending cmp a1 rest) rest)"
        by (rule run_tail_successively)
      moreover have "?R a0 a1"
        using d by auto
      ultimately show ?thesis
        using Cons \<open>xs = a0 # tl\<close> k by simp
    qed
  qed
  have sub': "set (take runLength xs) \<subseteq> A"
    using sub by (meson set_take_subset subset_trans)
  show ?thesis
  proof (cases isDescending)
    case True
    let ?Q = "\<lambda>a b. cmp b a \<le> 0"
    have "sorted_wrt ?Q (take runLength xs)"
    proof (rule successively_sorted_wrt [where A = A and S = ?R])
      fix a b assume "a \<in> A" "b \<in> A" "?R a b"
      with True show "cmp b a \<le> 0" by simp
    next
      fix a b c assume "a \<in> A" "b \<in> A" "c \<in> A" "cmp b a \<le> 0" "cmp c b \<le> 0"
      then show "cmp c a \<le> 0" using trans by blast
    qed (rule sub', rule succ)
    with True show ?thesis
      by (simp add: sorted_wrt_rev)
  next
    case False
    let ?Q = "\<lambda>a b. cmp a b \<le> 0"
    have "sorted_wrt ?Q (take runLength xs)"
    proof (rule successively_sorted_wrt [where A = A and S = ?R])
      fix a b assume "a \<in> A" "b \<in> A" "?R a b"
      with False show "cmp a b \<le> 0"
        using anti [of b a] by auto
    next
      fix a b c assume "a \<in> A" "b \<in> A" "c \<in> A" "cmp a b \<le> 0" "cmp b c \<le> 0"
      then show "cmp a c \<le> 0" using trans by blast
    qed (rule sub', rule succ)
    with False show ?thesis by simp
  qed
qed

lemma binary_search_bounds:
  assumes anti: "\<And>a b. a \<in> A \<Longrightarrow> b \<in> A \<Longrightarrow> cmp a b < 0 \<longleftrightarrow> 0 < cmp b a"
    and trans: "\<And>a b c. a \<in> A \<Longrightarrow> b \<in> A \<Longrightarrow> c \<in> A \<Longrightarrow> cmp a b \<le> 0 \<Longrightarrow> cmp b c \<le> 0 \<Longrightarrow> cmp a c \<le> 0"
    and pivot: "pivot \<in> A" and sub: "set arr \<subseteq> A"
    and srt: "sorted_wrt (\<lambda>a b. cmp a b \<le> 0) arr"
  shows "left \<le> right \<Longrightarrow> right \<le> length arr \<Longrightarrow>
         (\<forall>i < left. cmp (arr ! i) pivot \<le> 0) \<Longrightarrow>
         (\<forall>i. right \<le> i \<and> i < length arr \<longrightarrow> cmp pivot (arr ! i) \<le> 0) \<Longrightarrow>
         binary_search cmp pivot arr left right \<le> length arr
         \<and> (\<forall>i < binary_search cmp pivot arr left right. cmp (arr ! i) pivot \<le> 0)
         \<and> (\<forall>i. binary_search cmp pivot arr left right \<le> i \<and> i < length arr \<longrightarrow> cmp pivot (arr ! i) \<le> 0)"
  using anti trans pivot sub srt
proof (induction cmp pivot arr left right rule: binary_search.induct)
  case (1 cmp pivot arr left right)
  note lr = "1.prems"(1) and rn = "1.prems"(2) and lo = "1.prems"(3) and hi = "1.prems"(4)
    and anti = "1.prems"(5) and trans = "1.prems"(6) and pivot = "1.prems"(7)
    and sub = "1.prems"(8) and srt = "1.prems"(9)
  show ?case
  proof (cases "left < right")
    case False
    with lr have "left = right" by simp
    with False lo hi rn show ?thesis
      by (subst (1 2 3) binary_search.simps) simp
  next
    case True
    define mid where "mid = left + (right - left) div 2"
    have mid: "left \<le> mid" "mid < right"
      using True by (simp_all add: mid_def)
    then have mid_len: "mid < length arr"
      using rn by simp
    then have mid_in: "arr ! mid \<in> A"
      using sub by (metis nth_mem subsetD)
    have in_A: "arr ! i \<in> A" if "i < length arr" for i
      using sub that by (metis nth_mem subsetD)
    show ?thesis
    proof (cases "cmp pivot (arr ! mid) < 0")
      case below: True
      have hi': "\<forall>i. mid \<le> i \<and> i < length arr \<longrightarrow> cmp pivot (arr ! i) \<le> 0"
      proof (intro allI impI)
        fix i assume i: "mid \<le> i \<and> i < length arr"
        show "cmp pivot (arr ! i) \<le> 0"
        proof (cases "i = mid")
          case True
          with below show ?thesis by simp
        next
          case False
          with i have "mid < i" by simp
          with srt i have "cmp (arr ! mid) (arr ! i) \<le> 0"
            by (simp add: sorted_wrt_iff_nth_less)
          with below trans [OF pivot mid_in in_A] i show ?thesis
            by (metis less_imp_le)
        qed
      qed
      have "binary_search cmp pivot arr left right = binary_search cmp pivot arr left mid"
        using True below by (subst binary_search.simps) (simp add: mid_def Let_def)
      moreover have "binary_search cmp pivot arr left mid \<le> length arr
         \<and> (\<forall>i < binary_search cmp pivot arr left mid. cmp (arr ! i) pivot \<le> 0)
         \<and> (\<forall>i. binary_search cmp pivot arr left mid \<le> i \<and> i < length arr \<longrightarrow> cmp pivot (arr ! i) \<le> 0)"
        using "1.IH"(1) [OF True mid_def below mid(1) _ lo hi' anti trans pivot sub srt] mid_len
        by simp
      ultimately show ?thesis by simp
    next
      case above: False
      then have mid_le: "cmp (arr ! mid) pivot \<le> 0"
        using anti [OF pivot mid_in] by simp
      have lo': "\<forall>i < mid + 1. cmp (arr ! i) pivot \<le> 0"
      proof (intro allI impI)
        fix i assume i: "i < mid + 1"
        show "cmp (arr ! i) pivot \<le> 0"
        proof (cases "i = mid")
          case True
          with mid_le show ?thesis by simp
        next
          case False
          with i have "i < mid" by simp
          with srt mid_len have "cmp (arr ! i) (arr ! mid) \<le> 0"
            by (simp add: sorted_wrt_iff_nth_less)
          with mid_le trans [OF in_A mid_in pivot] \<open>i < mid\<close> mid_len show ?thesis
            by (metis less_trans)
        qed
      qed
      have "binary_search cmp pivot arr left right = binary_search cmp pivot arr (mid + 1) right"
        using True above by (subst binary_search.simps) (simp add: mid_def Let_def)
      moreover have "binary_search cmp pivot arr (mid + 1) right \<le> length arr
         \<and> (\<forall>i < binary_search cmp pivot arr (mid + 1) right. cmp (arr ! i) pivot \<le> 0)
         \<and> (\<forall>i. binary_search cmp pivot arr (mid + 1) right \<le> i \<and> i < length arr \<longrightarrow> cmp pivot (arr ! i) \<le> 0)"
        using "1.IH"(2) [OF True mid_def above _ rn lo' hi anti trans pivot sub srt] mid(2)
        by simp
      ultimately show ?thesis by simp
    qed
  qed
qed

lemma sorted_insert_at:
  assumes srt: "sorted_wrt R arr" and n: "n \<le> length arr"
    and lo: "\<forall>i < n. R (arr ! i) pivot"
    and hi: "\<forall>i. n \<le> i \<and> i < length arr \<longrightarrow> R pivot (arr ! i)"
  shows "sorted_wrt R (take n arr @ pivot # drop n arr)"
proof -
  have tk: "sorted_wrt R (take n arr)" and dr: "sorted_wrt R (drop n arr)"
    using srt by (simp_all add: sorted_wrt_take sorted_wrt_drop)
  have cross: "\<forall>x \<in> set (take n arr). \<forall>y \<in> set (drop n arr). R x y"
    using srt by (metis append_take_drop_id sorted_wrt_append)
  have left: "\<forall>x \<in> set (take n arr). R x pivot"
    using lo n by (auto simp: in_set_conv_nth)
  have right: "\<forall>y \<in> set (drop n arr). R pivot y"
  proof
    fix y assume "y \<in> set (drop n arr)"
    then obtain j where j: "j < length arr - n" and y: "y = arr ! (n + j)"
      by (auto simp: in_set_conv_nth)
    with hi show "R pivot y"
      by (metis add_less_cancel_left le_add1 le_add_diff_inverse n)
  qed
  show ?thesis
    using tk dr cross left right by (auto simp: sorted_wrt_append)
qed

lemma binary_insertion_sort_sorted:
  assumes anti: "\<And>a b. a \<in> A \<Longrightarrow> b \<in> A \<Longrightarrow> cmp a b < 0 \<longleftrightarrow> 0 < cmp b a"
    and trans: "\<And>a b c. a \<in> A \<Longrightarrow> b \<in> A \<Longrightarrow> c \<in> A \<Longrightarrow> cmp a b \<le> 0 \<Longrightarrow> cmp b c \<le> 0 \<Longrightarrow> cmp a c \<le> 0"
  shows "set arr \<subseteq> A \<Longrightarrow> set rest \<subseteq> A \<Longrightarrow> sorted_wrt (\<lambda>a b. cmp a b \<le> 0) arr \<Longrightarrow>
         sorted_wrt (\<lambda>a b. cmp a b \<le> 0) (binary_insertion_sort cmp arr rest)"
proof (induction rest arbitrary: arr)
  case Nil
  then show ?case by simp
next
  case (Cons pivot rest)
  let ?n = "binary_search cmp pivot arr 0 (length arr)"
  from Cons.prems have pivot: "pivot \<in> A" and rest: "set rest \<subseteq> A" by simp_all
  have b: "?n \<le> length arr
         \<and> (\<forall>i < ?n. cmp (arr ! i) pivot \<le> 0)
         \<and> (\<forall>i. ?n \<le> i \<and> i < length arr \<longrightarrow> cmp pivot (arr ! i) \<le> 0)"
    by (rule binary_search_bounds [OF anti trans pivot Cons.prems(1) Cons.prems(3)]) simp_all
  then have srt: "sorted_wrt (\<lambda>a b. cmp a b \<le> 0) (take ?n arr @ pivot # drop ?n arr)"
    using sorted_insert_at [OF Cons.prems(3)] by blast
  have sub: "set (take ?n arr @ pivot # drop ?n arr) \<subseteq> A"
    using Cons.prems(1) pivot
    by (metis append_take_drop_id insert_subset list.simps(15) set_append le_sup_iff)
  from Cons.IH [OF sub rest srt] show ?case
    by (simp add: Let_def)
qed

text \<open>
  On an array on which the comparator is consistent, the result is sorted: for fewer than
  64 elements by what is modelled, for more when the merge phase sorts.
\<close>

lemma array_sort_sorted:
  assumes cons: "consistent_on cmp xs"
    and phase: "length xs < 64 \<or> sorting_merge_phase merge_phase"
  shows "sorted_wrt (\<lambda>a b. cmp a b \<le> 0) (array_sort merge_phase cmp xs)"
proof -
  have anti: "\<And>a b. a \<in> set xs \<Longrightarrow> b \<in> set xs \<Longrightarrow> cmp a b < 0 \<longleftrightarrow> 0 < cmp b a"
    using cons unfolding consistent_on_def by blast
  have trans: "\<And>a b c. a \<in> set xs \<Longrightarrow> b \<in> set xs \<Longrightarrow> c \<in> set xs \<Longrightarrow>
      cmp a b \<le> 0 \<Longrightarrow> cmp b c \<le> 0 \<Longrightarrow> cmp a c \<le> 0"
    using cons unfolding consistent_on_def by blast
  obtain runLength isDescending where run: "count_run cmp xs = (runLength, isDescending)"
    by (cases "count_run cmp xs")
  let ?run = "if isDescending then rev (take runLength xs) else take runLength xs"
  have run_sorted: "sorted_wrt (\<lambda>a b. cmp a b \<le> 0) ?run"
    by (rule count_run_sorted [OF anti trans subset_refl run])
  have run_sub: "set ?run \<subseteq> set xs"
    by (simp add: set_take_subset)
  have rest_sub: "set (drop runLength xs) \<subseteq> set xs"
    by (simp add: set_drop_subset)
  show ?thesis
  proof (cases "length xs < 2")
    case True
    then have "length xs = 0 \<or> length xs = 1" by linarith
    then have "sorted_wrt (\<lambda>a b. cmp a b \<le> 0) xs"
      by (cases xs) auto
    with True show ?thesis by (simp add: array_sort_def)
  next
    case False
    show ?thesis
    proof (cases "runLength = length xs")
      case True
      with False run run_sorted show ?thesis
        by (cases isDescending) (simp_all add: array_sort_def)
    next
      case part: False
      show ?thesis
      proof (cases "length xs < 64")
        case True
        have "sorted_wrt (\<lambda>a b. cmp a b \<le> 0) (binary_insertion_sort cmp ?run (drop runLength xs))"
          by (rule binary_insertion_sort_sorted [OF anti trans run_sub rest_sub run_sorted])
        with False part True run show ?thesis
          by (simp add: array_sort_def)
      next
        case long: False
        with phase have "sorting_merge_phase merge_phase" by simp
        with cons have "sorted_wrt (\<lambda>a b. cmp a b \<le> 0) (Rep_sorter merge_phase cmp xs)"
          unfolding sorting_merge_phase_def by blast
        with False part long run show ?thesis
          by (simp add: array_sort_def)
      qed
    qed
  qed
qed

section \<open>Facts about the comparator\<close>

lemma comparator_antisym:
  assumes "consistent_collation lc"
  shows "comparator lc a b < 0 \<longleftrightarrow> 0 < comparator lc b a"
proof (cases "displayOrder a = displayOrder b")
  case True
  with assms show ?thesis
    unfolding consistent_collation_def by (simp add: comparator_def)
next
  case False
  then have "displayOrder b \<noteq> displayOrder a" by simp
  with False show ?thesis
    by (simp add: comparator_def)
qed

lemma comparator_policy:
  assumes "orders_uniform rs" and "a \<in> set rs" and "b \<in> set rs"
  shows "comparator lc a b \<le> 0 \<longleftrightarrow> policy_le lc a b"
proof (cases "displayOrder a = displayOrder b")
  case True
  then show ?thesis
    by (simp add: comparator_def policy_le_def effective_order_def)
next
  case False
  with assms have "effective_order a \<noteq> effective_order b"
    unfolding orders_uniform_def by blast
  with False show ?thesis
    by (auto simp: comparator_def policy_le_def)
qed

lemma policy_le_trans:
  assumes "consistent_collation lc" and "policy_le lc a b" and "policy_le lc b c"
  shows "policy_le lc a c"
proof -
  have le_ab: "effective_order a \<le> effective_order b" and le_bc: "effective_order b \<le> effective_order c"
    using assms(2,3) by (auto simp: policy_le_def effective_order_def)
  show ?thesis
  proof (cases "effective_order a < effective_order c")
    case True
    then show ?thesis by (simp add: policy_le_def)
  next
    case False
    with le_ab le_bc have "effective_order a = effective_order b" "effective_order b = effective_order c"
      by auto
    with assms(2,3) have ab: "displayOrder a = displayOrder b \<and> lc (secondary_key a) (secondary_key b) \<le> 0"
      and bc: "displayOrder b = displayOrder c \<and> lc (secondary_key b) (secondary_key c) \<le> 0"
      by (auto simp: policy_le_def)
    then have "lc (secondary_key a) (secondary_key c) \<le> 0"
      using assms(1) unfolding consistent_collation_def by blast
    with ab bc show ?thesis by (simp add: policy_le_def)
  qed
qed

text \<open>
  With a consistent collation the comparator is consistent on every collection in which
  no record lacks a \<open>displayOrder\<close> beside a record that carries 0.
\<close>

lemma comparator_consistent_on:
  assumes "consistent_collation lc" and "orders_uniform rs"
  shows "consistent_on (comparator lc) rs"
  unfolding consistent_on_def
proof (intro conjI ballI impI)
  fix a b
  show "comparator lc a b < 0 \<longleftrightarrow> 0 < comparator lc b a"
    by (rule comparator_antisym [OF assms(1)])
next
  fix a b c
  assume "a \<in> set rs" "b \<in> set rs" "c \<in> set rs"
    and "comparator lc a b \<le> 0" "comparator lc b c \<le> 0"
  then show "comparator lc a c \<le> 0"
    using comparator_policy [OF assms(2)] policy_le_trans [OF assms(1)] by blast
qed

lemma array_sort_policy_sorted:
  assumes "consistent_collation lc" and "orders_uniform rs"
    and "length rs < 64 \<or> sorting_merge_phase merge_phase"
  shows "sorted_wrt (policy_le lc) (array_sort merge_phase (comparator lc) rs)"
proof -
  let ?out = "array_sort merge_phase (comparator lc) rs"
  have "sorted_wrt (\<lambda>a b. comparator lc a b \<le> 0) ?out"
    by (rule array_sort_sorted [OF comparator_consistent_on [OF assms(1,2)] assms(3)])
  then show ?thesis
  proof (rule sorted_wrt_mono_rel [rotated])
    fix a b assume "a \<in> set ?out" "b \<in> set ?out" and "comparator lc a b \<le> 0"
    then show "policy_le lc a b"
      using comparator_policy [OF assms(2)] by (simp add: set_array_sort)
  qed
qed

text \<open>A collection in policy order has no record that compares below the one before it.\<close>

lemma policy_sorted_in_order:
  assumes "consistent_collation lc" and "orders_uniform rs" and "sorted_wrt (policy_le lc) rs"
  shows "successively (\<lambda>a b. 0 \<le> comparator lc b a) rs"
proof -
  have "sorted_wrt (\<lambda>a b. 0 \<le> comparator lc b a) rs"
    using assms(3)
  proof (rule sorted_wrt_mono_rel [rotated])
    fix a b assume a: "a \<in> set rs" and b: "b \<in> set rs" and "policy_le lc a b"
    then have "comparator lc a b \<le> 0"
      using comparator_policy [OF assms(2)] by blast
    then show "0 \<le> comparator lc b a"
      using comparator_antisym [OF assms(1), of b a] by simp
  qed
  then show ?thesis
    by (rule successively_if_sorted_wrt)
qed

text \<open>The key is the name where the record has one, and the title otherwise.\<close>

lemma secondary_key_name: "name r = Some n \<Longrightarrow> n \<noteq> [] \<Longrightarrow> secondary_key r = n"
  by (simp add: secondary_key_def)

lemma secondary_key_title: "name r = None \<Longrightarrow> title r = Some t \<Longrightarrow> secondary_key r = t"
  by (simp add: secondary_key_def)

section \<open>Facts about the instances of closed examples\<close>

lemma lex_compare_antisym: "lex_compare a b < 0 \<longleftrightarrow> 0 < lex_compare b a"
  by (induction a b rule: lex_compare.induct) simp_all

lemma lex_compare_trans:
  "lex_compare a b \<le> 0 \<Longrightarrow> lex_compare b c \<le> 0 \<Longrightarrow> lex_compare a c \<le> 0"
proof (induction a b arbitrary: c rule: lex_compare.induct)
  case 1
  then show ?case by simp
next
  case (2 y ys)
  then show ?case by (cases c) simp_all
next
  case (3 x xs)
  then show ?case by simp
next
  case (4 x xs y ys)
  show ?case
  proof (cases c)
    case Nil
    with "4.prems" show ?thesis by simp
  next
    case (Cons z zs)
    from "4.prems"(1) have xy: "x \<le> y"
      by (simp split: if_splits)
    from "4.prems"(2) Cons have yz: "y \<le> z"
      by (simp split: if_splits)
    show ?thesis
    proof (cases "x < z")
      case True
      with Cons show ?thesis by simp
    next
      case False
      with xy yz have eq: "x = y" "y = z" by simp_all
      with "4.prems" Cons have "lex_compare xs ys \<le> 0" "lex_compare ys zs \<le> 0"
        by simp_all
      with "4.IH" eq have "lex_compare xs zs \<le> 0" by simp
      with eq Cons show ?thesis by simp
    qed
  qed
qed

lemma consistent_ordinal_compare: "consistent_collation ordinal_compare"
  unfolding consistent_collation_def ordinal_compare_def
  using lex_compare_antisym lex_compare_trans by blast

lemma mset_insert_by: "mset (insert_by cmp x ys) = add_mset x (mset ys)"
  by (induction ys) auto

lemma mset_insertion_sort: "mset (insertion_sort cmp xs) = mset xs"
  unfolding insertion_sort_def by (induction xs) (auto simp: mset_insert_by)

lemma Rep_insertion_sorter: "Rep_sorter insertion_sorter = insertion_sort"
  by (simp add: insertion_sorter_def Abs_sorter_inverse mset_insertion_sort)

lemma set_insert_by: "set (insert_by cmp x ys) = insert x (set ys)"
  by (induction ys) auto

lemma set_insertion_sort: "set (insertion_sort cmp xs) = set xs"
  using mset_insertion_sort [of cmp xs] by (rule mset_eq_setD)

lemma sorted_insert_by:
  assumes anti: "\<And>a b. a \<in> A \<Longrightarrow> b \<in> A \<Longrightarrow> cmp a b < 0 \<longleftrightarrow> 0 < cmp b a"
    and trans: "\<And>a b c. a \<in> A \<Longrightarrow> b \<in> A \<Longrightarrow> c \<in> A \<Longrightarrow> cmp a b \<le> 0 \<Longrightarrow> cmp b c \<le> 0 \<Longrightarrow> cmp a c \<le> 0"
    and x: "x \<in> A"
  shows "set ys \<subseteq> A \<Longrightarrow> sorted_wrt (\<lambda>a b. cmp a b \<le> 0) ys \<Longrightarrow>
         sorted_wrt (\<lambda>a b. cmp a b \<le> 0) (insert_by cmp x ys)"
proof (induction ys)
  case Nil
  then show ?case by simp
next
  case (Cons y ys)
  from Cons.prems have y: "y \<in> A" and ys: "set ys \<subseteq> A"
    and y_le: "\<forall>z \<in> set ys. cmp y z \<le> 0" and srt: "sorted_wrt (\<lambda>a b. cmp a b \<le> 0) ys"
    by simp_all
  show ?case
  proof (cases "cmp x y \<le> 0")
    case True
    have "\<forall>z \<in> set ys. cmp x z \<le> 0"
      using True y_le trans x y ys by blast
    with True Cons.prems show ?thesis
      by simp
  next
    case False
    then have yx: "cmp y x \<le> 0"
      using anti [OF y x] by simp
    have "sorted_wrt (\<lambda>a b. cmp a b \<le> 0) (insert_by cmp x ys)"
      using Cons.IH ys srt by blast
    with False yx y_le show ?thesis
      by (simp add: set_insert_by)
  qed
qed

lemma sorting_insertion_sorter: "sorting_merge_phase insertion_sorter"
  unfolding sorting_merge_phase_def Rep_insertion_sorter
proof (intro allI impI)
  fix cmp :: "rec \<Rightarrow> rec \<Rightarrow> int" and xs
  assume cons: "consistent_on cmp xs"
  have anti: "\<And>a b. a \<in> set xs \<Longrightarrow> b \<in> set xs \<Longrightarrow> cmp a b < 0 \<longleftrightarrow> 0 < cmp b a"
    using cons unfolding consistent_on_def by blast
  have trans: "\<And>a b c. a \<in> set xs \<Longrightarrow> b \<in> set xs \<Longrightarrow> c \<in> set xs \<Longrightarrow>
      cmp a b \<le> 0 \<Longrightarrow> cmp b c \<le> 0 \<Longrightarrow> cmp a c \<le> 0"
    using cons unfolding consistent_on_def by blast
  have "set ys \<subseteq> set xs \<Longrightarrow> sorted_wrt (\<lambda>a b. cmp a b \<le> 0) (insertion_sort cmp ys)" for ys
  proof (induction ys)
    case Nil
    then show ?case by (simp add: insertion_sort_def)
  next
    case (Cons y ys)
    then have srt: "sorted_wrt (\<lambda>a b. cmp a b \<le> 0) (insertion_sort cmp ys)"
      and y: "y \<in> set xs" and sub: "set (insertion_sort cmp ys) \<subseteq> set xs"
      by (simp_all add: set_insertion_sort)
    have "sorted_wrt (\<lambda>a b. cmp a b \<le> 0) (insert_by cmp y (insertion_sort cmp ys))"
      by (rule sorted_insert_by [OF anti trans y sub srt])
    then show ?case
      by (simp add: insertion_sort_def)
  qed
  then show "sorted_wrt (\<lambda>a b. cmp a b \<le> 0) (insertion_sort cmp xs)"
    by simp
qed

lemma serves_collections:
  "f \<in> set collections \<Longrightarrow> serves_data_dir (collection_server cwd) cwd f"
  by (auto simp: serves_data_dir_def collection_server_def)

text \<open>Unfolding the sort on an array that is written out.\<close>

lemma binary_search_step:
  "left < right \<Longrightarrow> binary_search cmp pivot arr left right =
     (if cmp pivot (arr ! (left + (right - left) div 2)) < 0
      then binary_search cmp pivot arr left (left + (right - left) div 2)
      else binary_search cmp pivot arr (left + (right - left) div 2 + 1) right)"
  by (subst binary_search.simps) (simp add: Let_def)

lemma binary_search_stop:
  "\<not> left < right \<Longrightarrow> binary_search cmp pivot arr left right = left"
  by (subst binary_search.simps) simp

lemmas sort_eval = array_sort_def count_run_def binary_search_step binary_search_stop
  comparator_def member_def program_def unordered_member_def news_def effective_order_def
  secondary_key_def Let_def

text \<open>
  Binary insertion at work: E, D, C, B, where only C has a \<open>displayOrder\<close>, the value 0.
  The run D, E is found and reversed; C ties with E and goes behind it; B is searched for
  against E and then D, and goes to the front.
\<close>

lemma binary_insertion_example:
  "binary_insertion_sort (comparator ordinal_compare)
     [unordered_member ''D'', unordered_member ''E''] [member 0 ''C'', unordered_member ''B'']
   = [unordered_member ''B'', unordered_member ''D'', unordered_member ''E'', member 0 ''C'']"
  by code_simp

lemma array_sort_example:
  "array_sort merge_phase (comparator ordinal_compare)
     [unordered_member ''E'', unordered_member ''D'', member 0 ''C'', unordered_member ''B'']
   = [unordered_member ''B'', unordered_member ''D'', unordered_member ''E'', member 0 ''C'']"
proof -
  have d: "comparator ordinal_compare (unordered_member ''D'') (unordered_member ''E'') < 0"
    by (simp add: comparator_def unordered_member_def secondary_key_def ordinal_compare_def)
  have c: "\<not> comparator ordinal_compare (member 0 ''C'') (unordered_member ''D'') < 0"
    by (simp add: comparator_def unordered_member_def member_def effective_order_def)
  have run: "count_run (comparator ordinal_compare)
      [unordered_member ''E'', unordered_member ''D'', member 0 ''C'', unordered_member ''B''] = (2, True)"
    using d c by (simp add: count_run_def Let_def)
  show ?thesis
    by (simp add: array_sort_def run binary_insertion_example del: binary_insertion_sort.simps)
qed

section \<open>The token gate fails closed\<close>

lemma requireDevToken_None_iff:
  "requireDevToken TOKEN hdr = None \<longleftrightarrow> (\<exists>t. t \<noteq> [] \<and> TOKEN = Some t \<and> hdr = Some t)"
  by (cases TOKEN) (auto simp: requireDevToken_def)

lemma requireDevToken_reject:
  "requireDevToken TOKEN hdr \<noteq> None \<Longrightarrow> requireDevToken TOKEN hdr = Some (401, Error ''unauthorized'')"
  by (simp add: requireDevToken_def split: if_splits)

text \<open>
  C9, as amended. When \<open>LOCAL_ADMIN_TOKEN\<close> is unset or empty, the gate rejects every
  request, whatever its \<open>x-admin-token\<close> header. When the token is a non-empty string, the
  gate passes exactly the requests whose header equals it. A rejected request to the save,
  upload or delete endpoint, or to the save endpoint of the stand-alone server, is answered
  401 \<open>unauthorized\<close> and leaves the files as they were.
\<close>

theorem dev_token_gate:
  "(requireDevToken TOKEN hdr = None \<longleftrightarrow> (\<exists>t. t \<noteq> [] \<and> TOKEN = Some t \<and> hdr = Some t))
   \<and> (TOKEN = None \<or> TOKEN = Some [] \<longrightarrow> requireDevToken TOKEN hdr \<noteq> None)
   \<and> (requireDevToken TOKEN hdr \<noteq> None \<longrightarrow>
        post_save_json lc merge_phase TOKEN cwd hdr body store = ((401, Error ''unauthorized''), store)
      \<and> post_upload TOKEN cwd now hdr req store = ((401, Error ''unauthorized''), store)
      \<and> delete_dev_upload TOKEN cwd hdr filePath store = ((401, Error ''unauthorized''), store)
      \<and> standalone_post_save_json TOKEN cwd hdr body store = ((401, Error ''unauthorized''), store))"
proof (intro conjI impI)
  show "requireDevToken TOKEN hdr = None \<longleftrightarrow> (\<exists>t. t \<noteq> [] \<and> TOKEN = Some t \<and> hdr = Some t)"
    by (rule requireDevToken_None_iff)
next
  assume "TOKEN = None \<or> TOKEN = Some []"
  then show "requireDevToken TOKEN hdr \<noteq> None"
    by (auto simp: requireDevToken_def)
next
  assume rej: "requireDevToken TOKEN hdr \<noteq> None"
  note r = requireDevToken_reject [OF rej]
  show "post_save_json lc merge_phase TOKEN cwd hdr body store = ((401, Error ''unauthorized''), store)"
    by (simp add: post_save_json_def r)
  show "post_upload TOKEN cwd now hdr req store = ((401, Error ''unauthorized''), store)"
    by (simp add: post_upload_def r)
  show "delete_dev_upload TOKEN cwd hdr filePath store = ((401, Error ''unauthorized''), store)"
    by (simp add: delete_dev_upload_def r)
  show "standalone_post_save_json TOKEN cwd hdr body store = ((401, Error ''unauthorized''), store)"
    by (simp add: standalone_post_save_json_def r)
qed

text \<open>
  The gate at an unset token and at the token \<open>secret\<close>: the three endpoints answer 401
  when the token is unset, and the set token admits the equal header only.
\<close>

theorem dev_token_gate_witness:
  "requireDevToken None (Some ''secret'') \<noteq> None
   \<and> post_save_json ordinal_compare insertion_sorter None ''/srv/app'' (Some ''secret'')
        \<lparr>file_name = Some ''members.json'', content = Some (Array [])\<rparr> Map.empty
       = ((401, Error ''unauthorized''), Map.empty)
   \<and> post_upload None ''/srv/app'' 1700000000000 (Some ''secret'')
        \<lparr>category = Some ''news'', upload = None\<rparr> Map.empty
       = ((401, Error ''unauthorized''), Map.empty)
   \<and> delete_dev_upload None ''/srv/app'' (Some ''secret'') (Some ''/uploads/news/a.png'') Map.empty
       = ((401, Error ''unauthorized''), Map.empty)
   \<and> requireDevToken (Some ''secret'') (Some ''secret'') = None
   \<and> requireDevToken (Some ''secret'') (Some ''guess'') \<noteq> None
   \<and> requireDevToken (Some ''secret'') None \<noteq> None"
proof -
  have unset: "(None :: string option) = None \<or> (None :: string option) = Some []"
    by simp
  have rej: "requireDevToken None (Some ''secret'') \<noteq> None"
    using dev_token_gate [of None "Some ''secret''"] unset by blast
  have pass: "requireDevToken (Some ''secret'') (Some ''secret'') = None"
    using dev_token_gate [of "Some ''secret''" "Some ''secret''"] by simp
  have guess: "requireDevToken (Some ''secret'') (Some ''guess'') \<noteq> None"
    using dev_token_gate [of "Some ''secret''" "Some ''guess''"] by simp
  have absent: "requireDevToken (Some ''secret'') None \<noteq> None"
    using dev_token_gate [of "Some ''secret''" None] by simp
  show ?thesis
    using rej pass guess absent
      dev_token_gate [of None "Some ''secret''" ordinal_compare insertion_sorter "''/srv/app''"
        "\<lparr>file_name = Some ''members.json'', content = Some (Array [])\<rparr>" Map.empty
        1700000000000 "\<lparr>category = Some ''news'', upload = None\<rparr>" "Some ''/uploads/news/a.png''"]
    by blast
qed

text \<open>
  C9 as it was stated fails when the variable is set to the empty string: a request whose
  header is the empty string carries a header equal to the token and is rejected all the
  same, since \<open>!TOKEN\<close> holds of the empty string.
\<close>

theorem dev_token_gate_empty_token_counterexample:
  "\<not> (requireDevToken (Some '''') (Some '''') = None \<longleftrightarrow> Some '''' = Some (''''::string))"
  by (simp add: requireDevToken_def)

section \<open>Facts about the save endpoint\<close>

lemma gate_secret: "requireDevToken (Some ''secret'') (Some ''secret'') = None"
  by (simp add: requireDevToken_def)

lemma valid_collections: "f \<in> set collections \<Longrightarrow> \<not> invalid_file (Some f)"
  by (auto simp: collections_def invalid_file_def endsWith_def startsWith_def)

lemma valid_programs_json: "\<not> invalid_file (Some ''programs.json'')"
  by (rule valid_collections) (simp add: collections_def)

lemma valid_members_json: "\<not> invalid_file (Some ''members.json'')"
  by (rule valid_collections) (simp add: collections_def)

lemma valid_news_json: "\<not> invalid_file (Some ''news.json'')"
  by (rule valid_collections) (simp add: collections_def)

lemma save_json_array:
  assumes "\<not> invalid_file (Some f)"
  shows "save_json lc merge_phase cwd \<lparr>file_name = Some f, content = Some (Array rs)\<rparr> store =
           (if f = ''programs.json'' \<and> 4 < length rs then ((400, Error programs_limit_message), store)
            else ((200, OkCount (length rs)),
                  store(path_join [DATA_DIR cwd, f] \<mapsto>
                    JsonText (Array (array_sort merge_phase (comparator lc) rs)))))"
  using assms by (simp add: save_json_def count_of_def length_array_sort Let_def)

lemma post_save_json_array:
  assumes "requireDevToken TOKEN hdr = None" and "\<not> invalid_file (Some f)"
  shows "post_save_json lc merge_phase TOKEN cwd hdr \<lparr>file_name = Some f, content = Some (Array rs)\<rparr> store =
           (if f = ''programs.json'' \<and> 4 < length rs then ((400, Error programs_limit_message), store)
            else ((200, OkCount (length rs)),
                  store(path_join [DATA_DIR cwd, f] \<mapsto>
                    JsonText (Array (array_sort merge_phase (comparator lc) rs)))))"
  using assms by (simp add: post_save_json_def save_json_array)

text \<open>A save that answers 200 passed the gate and the guard, and wrote the file.\<close>

lemma post_save_json_ok:
  assumes "post_save_json lc merge_phase TOKEN cwd hdr \<lparr>file_name = Some f, content = Some c\<rparr> store
             = ((200, r), store')"
  shows "requireDevToken TOKEN hdr = None \<and> \<not> invalid_file (Some f)
       \<and> store' = store(path_join [DATA_DIR cwd, f] \<mapsto>
            JsonText (case c of Array rs \<Rightarrow> Array (array_sort merge_phase (comparator lc) rs) | _ \<Rightarrow> c))"
proof -
  have gate: "requireDevToken TOKEN hdr = None"
  proof (rule ccontr)
    assume "requireDevToken TOKEN hdr \<noteq> None"
    then have "requireDevToken TOKEN hdr = Some (401, Error ''unauthorized'')"
      by (simp add: requireDevToken_def split: if_splits)
    with assms show False
      by (simp add: post_save_json_def)
  qed
  with assms have sv: "save_json lc merge_phase cwd \<lparr>file_name = Some f, content = Some c\<rparr> store
      = ((200, r), store')"
    by (simp add: post_save_json_def)
  have valid: "\<not> invalid_file (Some f)"
    using sv by (auto simp: save_json_def)
  from sv valid have "store' = store(path_join [DATA_DIR cwd, f] \<mapsto>
      JsonText (case c of Array rs \<Rightarrow> Array (array_sort merge_phase (comparator lc) rs) | _ \<Rightarrow> c))"
    by (auto simp: save_json_def Let_def split: if_splits)
  with gate valid show ?thesis by simp
qed

lemma load_written:
  "serves_data_dir fetch cwd f \<Longrightarrow>
   loadJsonData fetch f (store(path_join [DATA_DIR cwd, f] \<mapsto> JsonText c)) = Inr c"
  by (simp add: loadJsonData_def serves_data_dir_def)

section \<open>The file-name guard\<close>

text \<open>
  C3. A save request whose file name is missing, does not end with \<open>.json\<close>, contains
  \<open>..\<close> or contains \<open>/\<close> is rejected with 400 \<open>invalid file\<close>, whatever its content,
  and no file is written. Both servers have the guard; a request that does not pass the
  token gate writes no file either.
\<close>

theorem save_rejects_invalid_file:
  assumes "invalid_file (file_name body)"
  shows "save_json lc merge_phase cwd body store = ((400, Error ''invalid file''), store)
       \<and> standalone_save_json cwd body store = ((400, Error ''invalid file''), store)
       \<and> snd (post_save_json lc merge_phase TOKEN cwd hdr body store) = store
       \<and> snd (standalone_post_save_json TOKEN cwd hdr body store) = store
       \<and> (requireDevToken TOKEN hdr = None \<longrightarrow>
            post_save_json lc merge_phase TOKEN cwd hdr body store = ((400, Error ''invalid file''), store)
          \<and> standalone_post_save_json TOKEN cwd hdr body store = ((400, Error ''invalid file''), store))"
proof -
  have a: "save_json lc merge_phase cwd body store = ((400, Error ''invalid file''), store)"
    using assms by (cases "file_name body") (simp_all add: save_json_def)
  have b: "standalone_save_json cwd body store = ((400, Error ''invalid file''), store)"
    using assms by (cases "file_name body") (simp_all add: standalone_save_json_def)
  show ?thesis
    by (cases "requireDevToken TOKEN hdr")
      (simp_all add: a b post_save_json_def standalone_post_save_json_def)
qed

text \<open>Two rejected names: one that climbs out of the data directory, one without the suffix.\<close>

theorem save_rejects_invalid_file_witness:
  "invalid_file (Some ''x/../../server/index.json'')
   \<and> invalid_file (Some ''members.txt'')
   \<and> post_save_json ordinal_compare insertion_sorter (Some ''secret'') ''/srv/app'' (Some ''secret'')
        \<lparr>file_name = Some ''x/../../server/index.json'', content = Some (String ''boo'')\<rparr> Map.empty
       = ((400, Error ''invalid file''), Map.empty)
   \<and> standalone_post_save_json (Some ''secret'') ''/srv/app'' (Some ''secret'')
        \<lparr>file_name = Some ''members.txt'', content = None\<rparr> Map.empty
       = ((400, Error ''invalid file''), Map.empty)"
proof -
  have bad1: "invalid_file (file_name \<lparr>file_name = Some ''x/../../server/index.json'', content = Some (String ''boo'')\<rparr>)"
    by (simp add: invalid_file_def endsWith_def startsWith_def)
  have bad2: "invalid_file (file_name \<lparr>file_name = Some ''members.txt'', content = None\<rparr>)"
    by (simp add: invalid_file_def endsWith_def startsWith_def)
  show ?thesis
    using bad1 bad2 gate_secret
      save_rejects_invalid_file [OF bad1, of ordinal_compare insertion_sorter "''/srv/app''" Map.empty
        "Some ''secret''" "Some ''secret''"]
      save_rejects_invalid_file [OF bad2, of ordinal_compare insertion_sorter "''/srv/app''" Map.empty
        "Some ''secret''" "Some ''secret''"]
    by simp
qed

section \<open>The programs limit\<close>

text \<open>
  C4. An authorised save of \<open>programs.json\<close> with more than 4 records is rejected with the
  limit message and leaves the files as they were: the check comes before the write. With 4
  records (or fewer) the save succeeds, reports the count and writes the sorted records.
\<close>

theorem programs_limit:
  assumes "requireDevToken TOKEN hdr = None"
  shows "(4 < length rs \<longrightarrow>
            post_save_json lc merge_phase TOKEN cwd hdr
                \<lparr>file_name = Some ''programs.json'', content = Some (Array rs)\<rparr> store
              = ((400, Error programs_limit_message), store))
       \<and> (length rs \<le> 4 \<longrightarrow>
            post_save_json lc merge_phase TOKEN cwd hdr
                \<lparr>file_name = Some ''programs.json'', content = Some (Array rs)\<rparr> store
              = ((200, OkCount (length rs)),
                 store(path_join [DATA_DIR cwd, ''programs.json''] \<mapsto>
                   JsonText (Array (array_sort merge_phase (comparator lc) rs)))))"
  using assms by (simp add: post_save_json_array [OF _ valid_programs_json])

text \<open>Five programs are refused and nothing is written; four are saved.\<close>

theorem programs_limit_witness:
  "post_save_json ordinal_compare insertion_sorter (Some ''secret'') ''/srv/app'' (Some ''secret'')
      \<lparr>file_name = Some ''programs.json'',
       content = Some (Array [program 0 ''A'', program 1 ''B'', program 2 ''C'', program 3 ''D'', program 4 ''E''])\<rparr>
      Map.empty
     = ((400, Error programs_limit_message), Map.empty)
   \<and> fst (post_save_json ordinal_compare insertion_sorter (Some ''secret'') ''/srv/app'' (Some ''secret'')
      \<lparr>file_name = Some ''programs.json'',
       content = Some (Array [program 0 ''A'', program 1 ''B'', program 2 ''C'', program 3 ''D''])\<rparr>
      Map.empty)
     = (200, OkCount 4)"
proof -
  have five: "4 < length [program 0 ''A'', program 1 ''B'', program 2 ''C'', program 3 ''D'', program 4 ''E'']"
    by simp
  have four: "length [program 0 ''A'', program 1 ''B'', program 2 ''C'', program 3 ''D''] \<le> 4"
    by simp
  show ?thesis
    using five four
      programs_limit [OF gate_secret,
        of "[program 0 ''A'', program 1 ''B'', program 2 ''C'', program 3 ''D'', program 4 ''E'']"
           ordinal_compare insertion_sorter "''/srv/app''" Map.empty]
      programs_limit [OF gate_secret,
        of "[program 0 ''A'', program 1 ''B'', program 2 ''C'', program 3 ''D'']"
           ordinal_compare insertion_sorter "''/srv/app''" Map.empty]
    by simp
qed

section \<open>Content that is not an array\<close>



section \<open>Saving and loading a collection\<close>

lemma members_json_path:
  "path_join [DATA_DIR ''/srv/app'', ''members.json''] = ''/srv/app/client/public/data/members.json''"
  by (simp add: DATA_DIR_def path_join_def path_normalize_def)

lemma serves_members: "serves_data_dir (collection_server cwd) cwd ''members.json''"
  by (rule serves_collections) (simp add: collections_def)

lemma serves_news: "serves_data_dir (collection_server cwd) cwd ''news.json''"
  by (rule serves_collections) (simp add: collections_def)

text \<open>
  C1, as amended. Take a collection name that the static server serves from the data
  directory, a consistent collation, and an array of records in which no record lacks a
  \<open>displayOrder\<close> beside a record that carries 0 (for an array of 64 or more records, take
  also that the merge phase of the engine sorts). After a successful save of the array,
  loading the collection returns the saved records in the order of the ordering policy: a
  permutation of the array that was saved, sorted by \<open>displayOrder\<close> and then by the
  secondary key. It returns the very array that was saved when that array was in policy
  order already.
\<close>

theorem save_then_load:
  assumes saved: "post_save_json lc merge_phase TOKEN cwd hdr
                    \<lparr>file_name = Some f, content = Some (Array rs)\<rparr> store = ((200, r), store')"
    and served: "serves_data_dir fetch cwd f"
    and collation: "consistent_collation lc"
    and uniform: "orders_uniform rs"
    and phase: "length rs < 64 \<or> sorting_merge_phase merge_phase"
  shows "\<exists>out. loadJsonData fetch f store' = Inr (Array out)
             \<and> mset out = mset rs
             \<and> sorted_wrt (policy_le lc) out
             \<and> (sorted_wrt (policy_le lc) rs \<longrightarrow> out = rs)"
proof -
  let ?out = "array_sort merge_phase (comparator lc) rs"
  from post_save_json_ok [OF saved]
  have "store' = store(path_join [DATA_DIR cwd, f] \<mapsto> JsonText (Array ?out))"
    by simp
  then have ld: "loadJsonData fetch f store' = Inr (Array ?out)"
    by (simp add: load_written [OF served])
  have perm: "mset ?out = mset rs"
    by (rule mset_array_sort)
  have srt: "sorted_wrt (policy_le lc) ?out"
    by (rule array_sort_policy_sorted [OF collation uniform phase])
  have same: "?out = rs" if "sorted_wrt (policy_le lc) rs"
    by (rule array_sort_in_order) (rule policy_sorted_in_order [OF collation uniform that])
  from ld perm srt same show ?thesis
    by blast
qed

text \<open>Two members saved in policy order are read back as they were saved.\<close>

theorem save_then_load_witness:
  "fst (post_save_json ordinal_compare insertion_sorter (Some ''secret'') ''/srv/app'' (Some ''secret'')
          \<lparr>file_name = Some ''members.json'', content = Some (Array [member 0 ''Alice'', member 1 ''Bob''])\<rparr>
          Map.empty) = (200, OkCount 2)
   \<and> serves_data_dir (collection_server ''/srv/app'') ''/srv/app'' ''members.json''
   \<and> consistent_collation ordinal_compare
   \<and> orders_uniform [member 0 ''Alice'', member 1 ''Bob'']
   \<and> sorting_merge_phase insertion_sorter
   \<and> sorted_wrt (policy_le ordinal_compare) [member 0 ''Alice'', member 1 ''Bob'']
   \<and> loadJsonData (collection_server ''/srv/app'') ''members.json''
        (snd (post_save_json ordinal_compare insertion_sorter (Some ''secret'') ''/srv/app'' (Some ''secret'')
          \<lparr>file_name = Some ''members.json'', content = Some (Array [member 0 ''Alice'', member 1 ''Bob''])\<rparr>
          Map.empty))
       = Inr (Array [member 0 ''Alice'', member 1 ''Bob''])"
proof -
  let ?rs = "[member 0 ''Alice'', member 1 ''Bob'']"
  let ?saved = "post_save_json ordinal_compare insertion_sorter (Some ''secret'') ''/srv/app'' (Some ''secret'')
          \<lparr>file_name = Some ''members.json'', content = Some (Array ?rs)\<rparr> Map.empty"
  have ok: "fst ?saved = (200, OkCount 2)"
    by (simp add: post_save_json_array [OF gate_secret valid_members_json])
  then have eq: "?saved = ((200, OkCount 2), snd ?saved)"
    by (metis prod.collapse)
  have uni: "orders_uniform ?rs"
    by (simp add: orders_uniform_def member_def effective_order_def)
  have pol: "sorted_wrt (policy_le ordinal_compare) ?rs"
    by (simp add: policy_le_def member_def effective_order_def)
  have phase: "length ?rs < 64 \<or> sorting_merge_phase insertion_sorter"
    by simp
  from save_then_load [OF eq serves_members consistent_ordinal_compare uni phase] pol
  have "loadJsonData (collection_server ''/srv/app'') ''members.json'' (snd ?saved) = Inr (Array ?rs)"
    by auto
  with ok serves_members consistent_ordinal_compare uni sorting_insertion_sorter pol show ?thesis
    by blast
qed

text \<open>
  C1 as it was stated fails for an array that is not in policy order: the member with
  \<open>displayOrder\<close> 1 is saved first and read back second.
\<close>

theorem save_then_load_reorders_counterexample:
  "fst (post_save_json ordinal_compare insertion_sorter (Some ''secret'') ''/srv/app'' (Some ''secret'')
          \<lparr>file_name = Some ''members.json'', content = Some (Array [member 1 ''Alice'', member 0 ''Bob''])\<rparr>
          Map.empty) = (200, OkCount 2)
   \<and> loadJsonData (collection_server ''/srv/app'') ''members.json''
        (snd (post_save_json ordinal_compare insertion_sorter (Some ''secret'') ''/srv/app'' (Some ''secret'')
          \<lparr>file_name = Some ''members.json'', content = Some (Array [member 1 ''Alice'', member 0 ''Bob''])\<rparr>
          Map.empty))
       = Inr (Array [member 0 ''Bob'', member 1 ''Alice''])
   \<and> Array [member 0 ''Bob'', member 1 ''Alice''] \<noteq> Array [member 1 ''Alice'', member 0 ''Bob'']"
proof -
  have srt: "array_sort insertion_sorter (comparator ordinal_compare) [member 1 ''Alice'', member 0 ''Bob'']
       = [member 0 ''Bob'', member 1 ''Alice'']"
    by (simp add: sort_eval)
  have ne: "Array [member 0 ''Bob'', member 1 ''Alice''] \<noteq> Array [member 1 ''Alice'', member 0 ''Bob'']"
    by (simp add: member_def)
  show ?thesis
    using ne
    by (simp add: post_save_json_array [OF gate_secret valid_members_json]
        load_written [OF serves_members] srt)
qed

section \<open>Saving a drag-reorder\<close>

lemma successively_reindex_from:
  "successively (\<lambda>a b. 0 \<le> comparator lc b a)
     (map (\<lambda>(index, r). r\<lparr>displayOrder := Some (int index)\<rparr>) (enumerate n rs))"
proof (induction rs arbitrary: n)
  case Nil
  then show ?case by simp
next
  case (Cons r rs)
  show ?case
  proof (cases rs)
    case Nil
    then show ?thesis by simp
  next
    case (Cons r' rs')
    have "successively (\<lambda>a b. 0 \<le> comparator lc b a)
        (map (\<lambda>(index, r). r\<lparr>displayOrder := Some (int index)\<rparr>) (enumerate (Suc n) rs))"
      by (rule Cons.IH)
    with Cons show ?thesis
      by (simp add: comparator_def effective_order_def)
  qed
qed

lemma array_sort_reindex: "array_sort merge_phase (comparator lc) (reindex rs) = reindex rs"
  unfolding reindex_def by (rule array_sort_in_order) (rule successively_reindex_from)

lemma length_reindex: "length (reindex rs) = length rs"
  by (simp add: reindex_def)

lemma nth_reindex:
  "i < length rs \<Longrightarrow> reindex rs ! i = (rs ! i)\<lparr>displayOrder := Some (int i)\<rparr>"
  by (simp add: reindex_def nth_enumerate_eq)

lemma saveToJson_ok:
  assumes "saveToJson lc merge_phase TOKEN cwd env f data store = (Inr reply, store')"
  shows "\<exists>r. post_save_json lc merge_phase TOKEN cwd
                 (Some (case DEV_TOKEN env of None \<Rightarrow> [] | Some t \<Rightarrow> t))
                 \<lparr>file_name = Some f, content = Some (Array data)\<rparr> store
               = ((200, r), store')"
proof -
  let ?body = "\<lparr>file_name = Some f, content = Some (Array data)\<rparr>"
  let ?hdr = "Some (case DEV_TOKEN env of None \<Rightarrow> [] | Some t \<Rightarrow> t)"
  obtain resp st where sv: "post_save_json lc merge_phase TOKEN cwd ?hdr ?body store = (resp, st)"
    by (cases "post_save_json lc merge_phase TOKEN cwd ?hdr ?body store")
  from assms sv have ok: "200 \<le> fst resp \<and> fst resp \<le> 299" and st: "st = store'"
    by (auto simp: saveToJson_def Let_def split: if_splits prod.splits)
  have "fst resp = 200 \<or> fst resp = 400 \<or> fst resp = 401 \<or> fst resp = 500"
    using sv by (auto simp: post_save_json_def save_json_def requireDevToken_def Let_def
        split: option.splits if_splits)
  with ok have "fst resp = 200" by auto
  with sv st have "post_save_json lc merge_phase TOKEN cwd ?hdr ?body store = ((200, snd resp), store')"
    by (metis prod.collapse)
  then show ?thesis by blast
qed

text \<open>
  In the four panels that rewrite \<open>displayOrder\<close>, the collection read back after a
  successful save is the new sequence, each record carrying its index.
\<close>

lemma reindexed_order_read_back:
  assumes "saveOrderMutation lc merge_phase TOKEN cwd env p ordered store = (Inr updated, store')"
    and served: "serves_data_dir fetch cwd (panel_file p)"
  shows "loadJsonData fetch (panel_file p) store' = Inr (Array updated)
       \<and> length updated = length ordered
       \<and> (\<forall>i < length ordered. displayOrder (updated ! i) = Some (int i)
                                 \<and> updated ! i = (ordered ! i)\<lparr>displayOrder := Some (int i)\<rparr>)"
proof -
  from assms(1) obtain reply where upd: "updated = reindex ordered"
    and sv: "saveToJson lc merge_phase TOKEN cwd env (panel_file p) (reindex ordered) store = (Inr reply, store')"
    by (auto simp: saveOrderMutation_def Let_def split: prod.splits sum.splits)
  from saveToJson_ok [OF sv] obtain r where
    "post_save_json lc merge_phase TOKEN cwd (Some (case DEV_TOKEN env of None \<Rightarrow> [] | Some t \<Rightarrow> t))
       \<lparr>file_name = Some (panel_file p), content = Some (Array (reindex ordered))\<rparr> store = ((200, r), store')"
    by blast
  from post_save_json_ok [OF this]
  have "store' = store(path_join [DATA_DIR cwd, panel_file p] \<mapsto> JsonText (Array (reindex ordered)))"
    by (simp add: array_sort_reindex)
  then have "loadJsonData fetch (panel_file p) store' = Inr (Array (reindex ordered))"
    by (simp add: load_written [OF served])
  with upd show ?thesis
    by (simp add: length_reindex nth_reindex)
qed

text \<open>
  C5 at the news panel. Its \<open>saveOrderMutation\<close> sends the dragged sequence without
  rewriting \<open>displayOrder\<close>. Zebra is dragged in front of Apple and the order is saved:
  the save succeeds, the endpoint sorts the two records by title, and the collection read
  back is Apple, Zebra, with no \<open>displayOrder\<close> on either record.
\<close>

theorem news_reorder_not_reindexed:
  "fst (saveNewsOrderMutation ordinal_compare merge_phase (Some ''secret'') ''/srv/app''
          \<lparr>DEV = True, DEV_TOKEN = Some ''secret''\<rparr> [news ''Zebra'', news ''Apple''] Map.empty)
     = Inr [news ''Zebra'', news ''Apple'']
   \<and> loadJsonData (collection_server ''/srv/app'') ''news.json''
        (snd (saveNewsOrderMutation ordinal_compare merge_phase (Some ''secret'') ''/srv/app''
          \<lparr>DEV = True, DEV_TOKEN = Some ''secret''\<rparr> [news ''Zebra'', news ''Apple''] Map.empty))
     = Inr (Array [news ''Apple'', news ''Zebra''])
   \<and> displayOrder ([news ''Apple'', news ''Zebra''] ! 0) = None
   \<and> displayOrder ([news ''Apple'', news ''Zebra''] ! 1) = None
   \<and> [news ''Apple'', news ''Zebra''] \<noteq> [news ''Zebra'', news ''Apple'']"
proof -
  have cmp: "comparator ordinal_compare (news ''Apple'') (news ''Zebra'') < 0"
    by (simp add: comparator_def news_def secondary_key_def ordinal_compare_def)
  have srt: "array_sort merge_phase (comparator ordinal_compare) [news ''Zebra'', news ''Apple'']
       = [news ''Apple'', news ''Zebra'']"
    using cmp by (simp add: array_sort_def count_run_def Let_def)
  have rest: "displayOrder ([news ''Apple'', news ''Zebra''] ! 0) = None"
    "displayOrder ([news ''Apple'', news ''Zebra''] ! 1) = None"
    "[news ''Apple'', news ''Zebra''] \<noteq> [news ''Zebra'', news ''Apple'']"
    by (simp_all add: news_def)
  show ?thesis
    using rest
    by (simp add: saveNewsOrderMutation_def saveToJson_def Let_def
        post_save_json_array [OF gate_secret valid_news_json] load_written [OF serves_news] srt)
qed

section \<open>The ordering of a saved collection\<close>

text \<open>Bob and Alice, both with \<open>displayOrder\<close> 0, are written as Alice, Bob.\<close>

lemma alice_before_bob:
  "lc ''Alice'' ''Bob'' < 0 \<Longrightarrow>
   array_sort merge_phase (comparator lc) [member 0 ''Bob'', member 0 ''Alice'']
     = [member 0 ''Alice'', member 0 ''Bob'']"
  by (simp add: sort_eval)

text \<open>
  C2 at an array the endpoint accepts and the claim does not survive. Zed and Abe share
  \<open>displayOrder\<close> 0 and Mid, between them, has no \<open>displayOrder\<close>. The comparator finds
  Mid's \<open>displayOrder\<close> different from 0, subtracts 0 from 0 and answers 0 for Mid against
  either neighbour, so the array is one run and nothing moves: the sequence is persisted
  as Zed, Mid, Abe, whatever the collation, although Zed and Abe share a \<open>displayOrder\<close>
  and Abe sorts before Zed.
\<close>

theorem tie_break_skipped_beside_missing_order:
  "fst (post_save_json lc merge_phase (Some ''secret'') ''/srv/app'' (Some ''secret'')
          \<lparr>file_name = Some ''members.json'',
           content = Some (Array [member 0 ''Zed'', unordered_member ''Mid'', member 0 ''Abe''])\<rparr>
          Map.empty) = (200, OkCount 3)
   \<and> snd (post_save_json lc merge_phase (Some ''secret'') ''/srv/app'' (Some ''secret'')
          \<lparr>file_name = Some ''members.json'',
           content = Some (Array [member 0 ''Zed'', unordered_member ''Mid'', member 0 ''Abe''])\<rparr>
          Map.empty) ''/srv/app/client/public/data/members.json''
       = Some (JsonText (Array [member 0 ''Zed'', unordered_member ''Mid'', member 0 ''Abe'']))
   \<and> loadJsonData (collection_server ''/srv/app'') ''members.json''
        (snd (post_save_json lc merge_phase (Some ''secret'') ''/srv/app'' (Some ''secret'')
          \<lparr>file_name = Some ''members.json'',
           content = Some (Array [member 0 ''Zed'', unordered_member ''Mid'', member 0 ''Abe''])\<rparr>
          Map.empty))
       = Inr (Array [member 0 ''Zed'', unordered_member ''Mid'', member 0 ''Abe''])
   \<and> displayOrder (member 0 ''Zed'') = displayOrder (member 0 ''Abe'')
   \<and> secondary_key (member 0 ''Zed'') = ''Zed''
   \<and> secondary_key (member 0 ''Abe'') = ''Abe''
   \<and> 0 < ordinal_compare ''Zed'' ''Abe''
   \<and> \<not> policy_le ordinal_compare (member 0 ''Zed'') (member 0 ''Abe'')"
proof -
  have srt: "array_sort merge_phase (comparator lc) [member 0 ''Zed'', unordered_member ''Mid'', member 0 ''Abe'']
       = [member 0 ''Zed'', unordered_member ''Mid'', member 0 ''Abe'']"
    by (simp add: sort_eval)
  have keys: "secondary_key (member 0 ''Zed'') = ''Zed''" "secondary_key (member 0 ''Abe'') = ''Abe''"
    by (simp_all add: secondary_key_def member_def)
  have cmp: "0 < ordinal_compare ''Zed'' ''Abe''"
    by (simp add: ordinal_compare_def)
  have pol: "\<not> policy_le ordinal_compare (member 0 ''Zed'') (member 0 ''Abe'')"
    using cmp by (simp add: policy_le_def keys) (simp add: member_def effective_order_def)
  have same: "displayOrder (member 0 ''Zed'') = displayOrder (member 0 ''Abe'')"
    by (simp add: member_def)
  let ?saved = "post_save_json lc merge_phase (Some ''secret'') ''/srv/app'' (Some ''secret'')
          \<lparr>file_name = Some ''members.json'',
           content = Some (Array [member 0 ''Zed'', unordered_member ''Mid'', member 0 ''Abe''])\<rparr>
          Map.empty"
  have reply: "fst ?saved = (200, OkCount 3)"
    by (simp add: post_save_json_array [OF gate_secret valid_members_json])
  have stored: "snd ?saved ''/srv/app/client/public/data/members.json''
      = Some (JsonText (Array [member 0 ''Zed'', unordered_member ''Mid'', member 0 ''Abe'']))"
    by (simp add: post_save_json_array [OF gate_secret valid_members_json] srt members_json_path)
  have loaded: "loadJsonData (collection_server ''/srv/app'') ''members.json'' (snd ?saved)
      = Inr (Array [member 0 ''Zed'', unordered_member ''Mid'', member 0 ''Abe''])"
    by (simp add: post_save_json_array [OF gate_secret valid_members_json]
        load_written [OF serves_members] srt)
  from reply stored loaded same keys cmp pol show ?thesis
    by blast
qed

section \<open>Uploads and deletions\<close>

lemmas path_eval = path_join_def path_normalize_def path_extname_def path_basename_def
  last_segment_def endsWith_def startsWith_def toLowerCase_def lower_char_def

text \<open>The filter accepts a file exactly when both tests succeed.\<close>

lemma fileFilter_both:
  "fileFilter f \<longleftrightarrow>
     allowedTypes_test (mimetype f) \<and> allowedTypes_test (toLowerCase (path_extname (originalname f)))"
  by (simp add: fileFilter_def)

lemma allowedTypes_test_iff:
  "allowedTypes_test s \<longleftrightarrow> (\<exists>t \<in> set allowedTypes. \<exists>a b. s = a @ t @ b)"
  by (simp add: allowedTypes_test_def list_ex_iff str_includes_iff)

lemma upload_rejected_by_filter:
  "requireDevToken TOKEN hdr = None \<Longrightarrow> upload req = Some f \<Longrightarrow> \<not> fileFilter f \<Longrightarrow>
   post_upload TOKEN cwd now hdr req store = ((500, Unhandled InvalidFileType), store)"
  by (simp add: post_upload_def upload_single_def)

text \<open>A program renamed to \<open>.png\<close> and sent with its own content type is rejected.\<close>

lemma renamed_program_rejected:
  "\<not> fileFilter \<lparr>originalname = ''setup.png'', mimetype = ''application/x-msdownload'', bytes = b\<rparr>"
  by (simp add: fileFilter_def allowedTypes_test_def allowedTypes_def startsWith_def)

text \<open>
  C6 at an upload the filter should refuse. The pattern \<open>/jpeg|jpg|png|webp|gif/\<close> has no
  anchors, so each test looks for an occurrence of one of the names: the extension
  \<open>.phpng\<close> contains \<open>png\<close> and passes, although it is not in the allowed set, and the file
  is stored under that extension.
\<close>

theorem upload_filter_substring_match:
  "fileFilter \<lparr>originalname = ''shell.phpng'', mimetype = ''image/png'', bytes = ''x''\<rparr>
   \<and> \<not> extension_in_allowed_set ''shell.phpng''
   \<and> fst (post_upload (Some ''secret'') ''/srv/app'' 1700000000000 (Some ''secret'')
        \<lparr>category = Some ''misc'',
         upload = Some \<lparr>originalname = ''shell.phpng'', mimetype = ''image/png'', bytes = ''x''\<rparr>\<rparr>
        Map.empty)
       = (200, OkPath ''/uploads/misc/shell-1700000000000.phpng'')"
proof -
  have ext: "path_extname ''shell.phpng'' = ''.phpng''"
    by (simp add: path_eval)
  have base: "path_basename ''shell.phpng'' ''.phpng'' = ''shell''"
    by (simp add: path_eval)
  have low: "toLowerCase ''.phpng'' = ''.phpng''" "toLowerCase ''shell'' = ''shell''"
    by (simp_all add: toLowerCase_def lower_char_def)
  have filt: "fileFilter \<lparr>originalname = ''shell.phpng'', mimetype = ''image/png'', bytes = ''x''\<rparr>"
    by (simp add: fileFilter_def allowedTypes_test_def allowedTypes_def ext low startsWith_def)
  have notin: "\<not> extension_in_allowed_set ''shell.phpng''"
    by (simp add: extension_in_allowed_set_def allowedTypes_def ext low)
  have fname: "filename 1700000000000 \<lparr>originalname = ''shell.phpng'', mimetype = ''image/png'', bytes = ''x''\<rparr>
      = ''shell-1700000000000.phpng''"
    by (simp add: filename_def ext base low slug_char_def show_nat.simps)
  show ?thesis
    using filt notin
    by (simp add: post_upload_def gate_secret upload_single_def fname query_category_def fileSize_limit_def)
qed

text \<open>The directory a file is stored in is one of the five categories.\<close>

lemma finalCategory_allowed: "finalCategory c \<in> set allowedCategories"
  by (simp add: finalCategory_def allowedCategories_def)

lemma finalCategory_unrecognised: "c \<notin> set allowedCategories \<Longrightarrow> finalCategory c = ''misc''"
  by (simp add: finalCategory_def)

text \<open>
  C7 at an unrecognised category. The storage callback maps \<open>avatars\<close> to \<open>misc\<close> and the
  file is stored under \<open>uploads/misc\<close>; the handler builds the public path from the
  category of the query as it came, so the path it returns names \<open>uploads/avatars\<close>, where
  no file is.
\<close>

theorem upload_public_path_mismatch:
  "fst (post_upload (Some ''secret'') ''/srv/app'' 1700000000000 (Some ''secret'')
        \<lparr>category = Some ''avatars'',
         upload = Some \<lparr>originalname = ''Photo.png'', mimetype = ''image/png'', bytes = ''x''\<rparr>\<rparr>
        Map.empty)
     = (200, OkPath ''/uploads/avatars/photo-1700000000000.png'')
   \<and> snd (post_upload (Some ''secret'') ''/srv/app'' 1700000000000 (Some ''secret'')
        \<lparr>category = Some ''avatars'',
         upload = Some \<lparr>originalname = ''Photo.png'', mimetype = ''image/png'', bytes = ''x''\<rparr>\<rparr>
        Map.empty) ''/srv/app/client/public/uploads/misc/photo-1700000000000.png''
     = Some (Bytes ''x'')
   \<and> public_file ''/srv/app'' ''/uploads/avatars/photo-1700000000000.png''
     = ''/srv/app/client/public/uploads/avatars/photo-1700000000000.png''
   \<and> snd (post_upload (Some ''secret'') ''/srv/app'' 1700000000000 (Some ''secret'')
        \<lparr>category = Some ''avatars'',
         upload = Some \<lparr>originalname = ''Photo.png'', mimetype = ''image/png'', bytes = ''x''\<rparr>\<rparr>
        Map.empty) ''/srv/app/client/public/uploads/avatars/photo-1700000000000.png''
     = None"
proof -
  let ?f = "\<lparr>originalname = ''Photo.png'', mimetype = ''image/png'', bytes = ''x''\<rparr>"
  have ext: "path_extname ''Photo.png'' = ''.png''"
    by (simp add: path_eval)
  have base: "path_basename ''Photo.png'' ''.png'' = ''Photo''"
    by (simp add: path_eval)
  have low: "toLowerCase ''.png'' = ''.png''" "toLowerCase ''Photo'' = ''photo''"
    by (simp_all add: toLowerCase_def lower_char_def)
  have filt: "fileFilter ?f"
    by (simp add: fileFilter_def allowedTypes_test_def allowedTypes_def ext low startsWith_def)
  have fname: "filename 1700000000000 ?f = ''photo-1700000000000.png''"
    by (simp add: filename_def ext base low slug_char_def show_nat.simps)
  have dest: "destination ''/srv/app'' (Some ''avatars'') = ''/srv/app/client/public/uploads/misc''"
    by (simp add: destination_def finalCategory_def query_category_def allowedCategories_def
        UPLOAD_DIR_def path_join_def path_normalize_def)
  have stored: "path_join [''/srv/app/client/public/uploads/misc'', ''photo-1700000000000.png'']
      = ''/srv/app/client/public/uploads/misc/photo-1700000000000.png''"
    by (simp add: path_join_def path_normalize_def)
  have pub: "public_file ''/srv/app'' ''/uploads/avatars/photo-1700000000000.png''
     = ''/srv/app/client/public/uploads/avatars/photo-1700000000000.png''"
    by (simp add: public_file_def path_join_def path_normalize_def)
  show ?thesis
    using filt pub
    by (simp add: post_upload_def gate_secret upload_single_def fname dest stored query_category_def
        fileSize_limit_def)
qed

text \<open>
  A path that does not start with \<open>/uploads/\<close> is refused and nothing is removed; a path
  that does, and names no file, is answered 404.
\<close>

lemma delete_refuses_other_prefix:
  "\<not> startsWith p ''/uploads/'' \<Longrightarrow>
   delete_upload cwd (Some p) store = ((400, Error ''invalid file path''), store)"
  by (simp add: delete_upload_def)

lemma delete_absent_file:
  "startsWith p ''/uploads/'' \<Longrightarrow> store (public_file cwd p) = None \<Longrightarrow>
   delete_upload cwd (Some p) store = ((404, Error ''file not found''), store)"
  by (auto simp: delete_upload_def startsWith_def)

lemma delete_present_file:
  "startsWith p ''/uploads/'' \<Longrightarrow> store (public_file cwd p) = Some d \<Longrightarrow>
   delete_upload cwd (Some p) store = ((200, Ok), store(public_file cwd p := None))"
  by (auto simp: delete_upload_def startsWith_def)

text \<open>
  C8 at a path that leaves the uploads root. The handler tests the prefix of the path as
  it was sent, not of the path that \<open>path.join\<close> resolves: \<open>/uploads/../data/members.json\<close>
  starts with \<open>/uploads/\<close>, resolves to the members collection in the data directory,
  outside the uploads root, and that file is removed with the answer \<open>{ok: true}\<close>.
\<close>

theorem delete_escapes_uploads_root:
  "public_file ''/srv/app'' ''/uploads/../data/members.json'' = ''/srv/app/client/public/data/members.json''
   \<and> \<not> inside_uploads_root ''/srv/app'' ''/srv/app/client/public/data/members.json''
   \<and> fst (delete_dev_upload (Some ''secret'') ''/srv/app'' (Some ''secret'') (Some ''/uploads/../data/members.json'')
        (Map.empty(''/srv/app/client/public/data/members.json'' \<mapsto> JsonText (Array [member 0 ''Alice'']))))
     = (200, Ok)
   \<and> snd (delete_dev_upload (Some ''secret'') ''/srv/app'' (Some ''secret'') (Some ''/uploads/../data/members.json'')
        (Map.empty(''/srv/app/client/public/data/members.json'' \<mapsto> JsonText (Array [member 0 ''Alice'']))))
       ''/srv/app/client/public/data/members.json''
     = None"
proof -
  have pub: "public_file ''/srv/app'' ''/uploads/../data/members.json'' = ''/srv/app/client/public/data/members.json''"
    by (simp add: public_file_def path_join_def path_normalize_def)
  have root: "UPLOAD_DIR ''/srv/app'' = ''/srv/app/client/public/uploads''"
    by (simp add: UPLOAD_DIR_def path_join_def path_normalize_def)
  have out: "\<not> inside_uploads_root ''/srv/app'' ''/srv/app/client/public/data/members.json''"
    by (simp add: inside_uploads_root_def root startsWith_def)
  have pre: "startsWith ''/uploads/../data/members.json'' ''/uploads/''"
    by (simp add: startsWith_def)
  show ?thesis
    using out
    by (simp add: delete_dev_upload_def gate_secret delete_upload_def pub pre)
qed

end
